theory Spec2Isabelle
  imports Complex_Main "HOL-Library.AList"
begin

section \<open>Bytes, text and the Python string operations the server uses\<close>

text \<open>
  A datagram payload is a Python \<open>bytes\<close> object: a list of 8-bit characters. The decoded
  text is a Python \<open>str\<close>: a list of Unicode code points, kept as natural numbers, so that
  \<open>strip\<close> sees the non-ASCII white space Python sees.
\<close>

type_synonym bytes = "char list"
type_synonym str = "nat list"

text \<open>A string literal of the source, as code points.\<close>

definition lit :: "string \<Rightarrow> str" where
  "lit s = map of_char s"

datatype py_exception = UnicodeDecodeError | IndexError | ValueError | UnboundLocalError

subsection \<open>\<open>bytes.decode('utf-8')\<close>\<close>

definition cont :: "nat \<Rightarrow> bool" where
  "cont b \<longleftrightarrow> 128 \<le> b \<and> b < 192"

text \<open>
  Strict UTF-8: no overlong forms, no surrogates (U+D800 to U+DFFF), nothing above U+10FFFF,
  no truncated sequence. \<open>None\<close> is Python's \<open>UnicodeDecodeError\<close>.
\<close>

fun utf8 :: "nat list \<Rightarrow> str option" where
  "utf8 [] = Some []"
| "utf8 (b0 # bs) =
     (if b0 < 128 then map_option ((#) b0) (utf8 bs)
      else if 194 \<le> b0 \<and> b0 < 224 then
        (case bs of
           b1 # r \<Rightarrow>
             if cont b1
             then map_option ((#) ((b0 - 192) * 64 + (b1 - 128))) (utf8 r)
             else None
         | _ \<Rightarrow> None)
      else if 224 \<le> b0 \<and> b0 < 240 then
        (case bs of
           b1 # b2 # r \<Rightarrow>
             if cont b1 \<and> cont b2 \<and> (if b0 = 224 then 160 \<le> b1 else True)
                \<and> (if b0 = 237 then b1 < 160 else True)
             then map_option ((#) ((b0 - 224) * 4096 + (b1 - 128) * 64 + (b2 - 128))) (utf8 r)
             else None
         | _ \<Rightarrow> None)
      else if 240 \<le> b0 \<and> b0 < 245 then
        (case bs of
           b1 # b2 # b3 # r \<Rightarrow>
             if cont b1 \<and> cont b2 \<and> cont b3 \<and> (if b0 = 240 then 144 \<le> b1 else True)
                \<and> (if b0 = 244 then b1 < 144 else True)
             then map_option
                    ((#) ((b0 - 240) * 262144 + (b1 - 128) * 4096 + (b2 - 128) * 64 + (b3 - 128)))
                    (utf8 r)
             else None
         | _ \<Rightarrow> None)
      else None)"

definition utf8_decode :: "bytes \<Rightarrow> str option" where
  "utf8_decode packet_bytes = utf8 (map of_char packet_bytes)"

subsection \<open>\<open>str.split\<close>, indexing, \<open>in\<close>, \<open>replace\<close>, \<open>strip\<close>\<close>

text \<open>\<open>s.split(sep)\<close> for a one-character separator: never empty, one more piece than separators.\<close>

fun str_split :: "nat \<Rightarrow> str \<Rightarrow> str list" where
  "str_split sep [] = [[]]"
| "str_split sep (c # cs) =
     (if c = sep then [] # str_split sep cs
      else (case str_split sep cs of
              p # ps \<Rightarrow> (c # p) # ps
            | [] \<Rightarrow> [[c]]))"

text \<open>\<open>xs[i]\<close>: a negative index counts from the end; out of range raises \<open>IndexError\<close>.\<close>

definition getitem :: "'a list \<Rightarrow> int \<Rightarrow> py_exception + 'a" where
  "getitem xs i =
     (let n = int (length xs); j = (if i < 0 then i + n else i)
      in if 0 \<le> j \<and> j < n then Inr (xs ! nat j) else Inl IndexError)"

definition startswith :: "str \<Rightarrow> str \<Rightarrow> bool" where
  "startswith sub s \<longleftrightarrow> take (length sub) s = sub"

text \<open>\<open>sub in s\<close> on strings: \<open>sub\<close> occurs as a substring.\<close>

fun str_contains :: "str \<Rightarrow> str \<Rightarrow> bool" where
  "str_contains sub [] = (sub = [])"
| "str_contains sub (c # cs) = (startswith sub (c # cs) \<or> str_contains sub cs)"

text \<open>
  \<open>s.replace(old, new)\<close>: the occurrences of \<open>old\<close> are replaced from the left, without
  overlap. The source calls it with a non-empty \<open>old\<close> only; for an empty \<open>old\<close> (where Python
  inserts \<open>new\<close> between all characters) this function returns \<open>s\<close>.
\<close>

function str_replace :: "str \<Rightarrow> str \<Rightarrow> str \<Rightarrow> str" where
  "str_replace old new [] = []"
| "str_replace old new (c # cs) =
     (if old \<noteq> [] \<and> startswith old (c # cs)
      then new @ str_replace old new (drop (length old) (c # cs))
      else c # str_replace old new cs)"
  by pat_completeness auto
termination
  by (relation "measure (\<lambda>(old, new, s). length s)") auto

text \<open>The code points for which \<open>str.isspace\<close> holds; \<open>strip()\<close> removes them at both ends.\<close>

definition isspace :: "nat \<Rightarrow> bool" where
  "isspace c \<longleftrightarrow>
     (9 \<le> c \<and> c \<le> 13) \<or> (28 \<le> c \<and> c \<le> 32) \<or> c = 133 \<or> c = 160 \<or> c = 5760
     \<or> (8192 \<le> c \<and> c \<le> 8202) \<or> c = 8232 \<or> c = 8233 \<or> c = 8239 \<or> c = 8287 \<or> c = 12288"

definition str_strip :: "str \<Rightarrow> str" where
  "str_strip s = rev (dropWhile isspace (rev (dropWhile isspace s)))"

abbreviation (input) LT :: nat where "LT \<equiv> 60"
abbreviation (input) EQ :: nat where "EQ \<equiv> 61"
abbreviation (input) GT :: nat where "GT \<equiv> 62"
abbreviation (input) SEMI :: nat where "SEMI \<equiv> 59"

section \<open>The packet parser\<close>

text \<open>
  A Python \<open>dict\<close> keeps its keys in insertion order: an association list, where
  \<open>d[k] = v\<close> is \<open>AList.update\<close> (in place for a key that is there, at the end for a new
  one). A channel value is \<open>None\<close> (for \<open>NaN\<close>) or a float; the floats and Python's \<open>float\<close>
  are parameters of the model: \<open>float v = None\<close> stands for \<open>float(v)\<close> raising \<open>ValueError\<close>.
\<close>

type_synonym 'f channel_dict = "(str \<times> 'f option) list"

record 'f parsed =
  serial :: str
  channel_data :: "'f channel_dict"
  checksum :: str
  raw_packet :: str
  is_end_marker :: bool

text \<open>
  The body of the loop over \<open>channels_part.split(';')\<close>. The two-name unpacking of
  \<open>channel.strip().split('=')\<close> is outside the inner \<open>try\<close>: with more than one \<open>=\<close> its
  \<open>ValueError\<close> leaves the loop. The \<open>ValueError\<close> of \<open>float\<close> is caught (and logged): the
  dictionary stays as it is.
\<close>

definition parse_channel ::
  "(str \<Rightarrow> 'f option) \<Rightarrow> 'f channel_dict \<Rightarrow> str \<Rightarrow> py_exception + 'f channel_dict" where
  "parse_channel float cd channel =
     (if str_contains [EQ] channel then
        (case str_split EQ (str_strip channel) of
           [channel_num, value] \<Rightarrow>
             if str_strip value = lit ''NaN'' then Inr (AList.update channel_num None cd)
             else (case float value of
                     Some x \<Rightarrow> Inr (AList.update channel_num (Some x) cd)
                   | None \<Rightarrow> Inr cd)
         | _ \<Rightarrow> Inl ValueError)
      else Inr cd)"

fun parse_channels ::
  "(str \<Rightarrow> 'f option) \<Rightarrow> 'f channel_dict \<Rightarrow> str list \<Rightarrow> py_exception + 'f channel_dict" where
  "parse_channels float cd [] = Inr cd"
| "parse_channels float cd (channel # rest) =
     (case parse_channel float cd channel of
        Inl e \<Rightarrow> Inl e
      | Inr cd' \<Rightarrow> parse_channels float cd' rest)"

text \<open>
  Lines 69 to 83: \<open>channel_data\<close> starts empty; \<open>channels_part\<close> is assigned only under
  \<open>'sendVal' in content\<close>, so the block returns it as an optional value (\<open>None\<close>: the local
  variable is unbound).
\<close>

definition channel_block ::
  "(str \<Rightarrow> 'f option) \<Rightarrow> str \<Rightarrow> py_exception + ('f channel_dict \<times> str option)" where
  "channel_block float content =
     (if str_contains (lit ''sendVal'') content then
        (let channels_part = str_strip (str_replace (lit ''sendVal'') [] content) in
         if channels_part \<noteq> [] then
           (case parse_channels float [] (str_split SEMI channels_part) of
              Inl e \<Rightarrow> Inl e
            | Inr cd \<Rightarrow> Inr (cd, Some channels_part))
         else Inr ([], Some channels_part))
      else Inr ([], None))"

text \<open>
  \<open>parse_packet\<close>: every exception is caught at line 93 and the source returns \<open>None\<close> after
  logging it; the model returns the exception (\<open>Inl\<close>), which is the error kind of the log
  line. Reading the unbound \<open>channels_part\<close> at line 90 raises \<open>UnboundLocalError\<close>.
\<close>

definition parse_packet ::
  "(str \<Rightarrow> 'f option) \<Rightarrow> bytes \<Rightarrow> py_exception + 'f parsed" where
  "parse_packet float packet_bytes =
     (case utf8_decode packet_bytes of
        None \<Rightarrow> Inl UnicodeDecodeError
      | Some packet_str \<Rightarrow>
     (case getitem (str_split LT packet_str) 0 of
        Inl e \<Rightarrow> Inl e
      | Inr serial' \<Rightarrow>
     (case getitem (str_split LT packet_str) 1 of
        Inl e \<Rightarrow> Inl e
      | Inr bracket \<Rightarrow>
     (case getitem (str_split GT bracket) 0 of
        Inl e \<Rightarrow> Inl e
      | Inr content \<Rightarrow>
     (case getitem (str_split GT packet_str) (- 1) of
        Inl e \<Rightarrow> Inl e
      | Inr checksum' \<Rightarrow>
     (case channel_block float content of
        Inl e \<Rightarrow> Inl e
      | Inr (channel_data', channels_part) \<Rightarrow>
     (case channels_part of
        None \<Rightarrow> Inl UnboundLocalError
      | Some part \<Rightarrow>
          Inr \<lparr>serial = serial', channel_data = channel_data', checksum = checksum',
               raw_packet = packet_str, is_end_marker = (str_strip part = [])\<rparr>)))))))"

section \<open>The reassembly buffer and the receive loop\<close>

text \<open>
  The state of the server: \<open>packet_buffer\<close>, a \<open>defaultdict(dict)\<close> from serial to the
  dictionary of the packets received (keyed by their count at arrival), and the rows handed to
  \<open>save_to_database\<close>, in order. \<open>write_to_csv\<close> receives the same serial and channel data. Both
  sinks catch their own errors, so a call returns normally.
\<close>

type_synonym 'f pending = "(nat \<times> 'f parsed) list"

record 'f row =
  serial_number :: str
  row_channel_data :: "'f channel_dict"
  raw_packets :: "str list"

record 'f server =
  packet_buffer :: "(str \<times> 'f pending) list"
  sensor_readings :: "'f row list"

definition dict_contains :: "'k \<Rightarrow> ('k \<times> 'v) list \<Rightarrow> bool" where
  "dict_contains k d \<longleftrightarrow> k \<in> set (map fst d)"

text \<open>\<open>packet_buffer[k]\<close> of the \<open>defaultdict\<close>: a missing key is entered with an empty dictionary.\<close>

definition buffer_getitem ::
  "(str \<times> 'f pending) list \<Rightarrow> str \<Rightarrow> 'f pending \<times> (str \<times> 'f pending) list" where
  "buffer_getitem buf k =
     (case map_of buf k of
        Some d \<Rightarrow> (d, buf)
      | None \<Rightarrow> ([], buf @ [(k, [])]))"

text \<open>\<open>d.update(e)\<close>: the items of \<open>e\<close> are stored in their order.\<close>

definition dict_update :: "('k \<times> 'v) list \<Rightarrow> ('k \<times> 'v) list \<Rightarrow> ('k \<times> 'v) list" where
  "dict_update d e = foldl (\<lambda>a (k, v). AList.update k v a) d e"

definition process_complete_dataset :: "'f server \<Rightarrow> str \<Rightarrow> 'f server" where
  "process_complete_dataset self sn =
     (let (pending, buf) = buffer_getitem (packet_buffer self) sn;
          (combined_channel_data, raw) =
             foldl (\<lambda>(combined, raw) packet_info.
                      (dict_update combined (channel_data packet_info),
                       raw @ [raw_packet packet_info]))
                   ([], []) (map snd pending)
      in self\<lparr>sensor_readings := sensor_readings self @
                  [\<lparr>serial_number = sn, row_channel_data = combined_channel_data,
                    raw_packets = raw\<rparr>],
               packet_buffer := AList.delete sn buf\<rparr>)"

text \<open>Lines 188 to 196: what the loop does with a parsed packet.\<close>

definition ingest :: "'f server \<Rightarrow> 'f parsed \<Rightarrow> 'f server" where
  "ingest self p =
     (if is_end_marker p then
        (if dict_contains (serial p) (packet_buffer self)
         then process_complete_dataset self (serial p)
         else self)
      else
        (let (d, buf) = buffer_getitem (packet_buffer self) (serial p)
         in self\<lparr>packet_buffer :=
                   AList.update (serial p) (AList.update (length d) p d) buf\<rparr>))"

text \<open>One turn of the loop of \<open>start\<close>, and the loop over the datagrams received so far.\<close>

definition handle_datagram :: "(str \<Rightarrow> 'f option) \<Rightarrow> 'f server \<Rightarrow> bytes \<Rightarrow> 'f server" where
  "handle_datagram float self data =
     (case parse_packet float data of
        Inl e \<Rightarrow> self
      | Inr p \<Rightarrow> ingest self p)"

definition start :: "(str \<Rightarrow> 'f option) \<Rightarrow> 'f server \<Rightarrow> bytes list \<Rightarrow> 'f server" where
  "start float self datagrams = foldl (handle_datagram float) self datagrams"

subsection \<open>A float parser for the worked examples\<close>

text \<open>
  The theorems hold for every \<open>float\<close>. To evaluate concrete packets one is fixed: it reads
  plain decimal literals (\<open>digits\<close> or \<open>digits.digits\<close>, white space around them ignored)
  and returns their exact value. Python's \<open>float\<close> accepts these literals as well (and returns
  the nearest double), and it raises \<open>ValueError\<close> on the value texts of the examples that
  this parser rejects.
\<close>

definition isdigit :: "nat \<Rightarrow> bool" where
  "isdigit c \<longleftrightarrow> 48 \<le> c \<and> c \<le> 57"

definition digits_value :: "str \<Rightarrow> nat" where
  "digits_value ds = foldl (\<lambda>a c. 10 * a + (c - 48)) 0 ds"

definition decimal_float :: "str \<Rightarrow> rat option" where
  "decimal_float v =
     (let t = str_strip v; whole = takeWhile isdigit t; r = dropWhile isdigit t
      in if whole = [] then None
         else if r = [] then Some (of_nat (digits_value whole))
         else if hd r = 46 \<and> tl r \<noteq> [] \<and> list_all isdigit (tl r)
           then Some (of_nat (digits_value (whole @ tl r)) / 10 ^ length (tl r))
         else None)"

section \<open>Evaluation\<close>

lemmas run_defs =
  parse_packet_def utf8_decode_def cont_def getitem_def channel_block_def lit_def startswith_def
  str_strip_def isspace_def parse_channel_def decimal_float_def isdigit_def digits_value_def
  handle_datagram_def start_def ingest_def process_complete_dataset_def dict_contains_def
  buffer_getitem_def dict_update_def

section \<open>The reassembly buffer\<close>

lemma dict_contains_map_of: "dict_contains k d \<longleftrightarrow> map_of d k \<noteq> None"
  by (simp add: dict_contains_def map_of_eq_None_iff)

lemma update_fresh: "k \<notin> fst ` set al \<Longrightarrow> AList.update k v al = al @ [(k, v)]"
  by (induction al) auto

lemma update_append_hit:
  "AList.update k v (al @ [(k, w)]) =
     (if k \<in> fst ` set al then AList.update k v al @ [(k, w)] else al @ [(k, v)])"
  by (induction al) auto

text \<open>The pending dictionary after n packets: keys 0..n-1 in order.\<close>

lemma update_enumerate: "AList.update (length fs) p (enumerate 0 fs) = enumerate 0 (fs @ [p])"
proof -
  have "length fs \<notin> fst ` set (enumerate 0 fs)"
    by (auto simp: in_set_enumerate_eq)
  then show ?thesis
    by (simp add: update_fresh enumerate_append_eq)
qed

lemma ingest_end_absent:
  "is_end_marker t \<Longrightarrow> \<not> dict_contains (serial t) (packet_buffer st) \<Longrightarrow> ingest st t = st"
  by (simp add: ingest_def)

lemma ingest_first:
  assumes "\<not> is_end_marker p" "map_of (packet_buffer st) (serial p) = None"
  shows "ingest st p = st\<lparr>packet_buffer := packet_buffer st @ [(serial p, [(0, p)])]\<rparr>"
proof -
  have "serial p \<notin> fst ` set (packet_buffer st)"
    using assms(2) by (simp add: map_of_eq_None_iff)
  then show ?thesis
    using assms by (simp add: ingest_def buffer_getitem_def update_append_hit)
qed

lemma ingest_next:
  assumes "\<not> is_end_marker p" "map_of (packet_buffer st) (serial p) = Some d"
  shows "ingest st p = st\<lparr>packet_buffer := AList.update (serial p) (AList.update (length d) p d) (packet_buffer st)\<rparr>"
  using assms by (simp add: ingest_def buffer_getitem_def)

lemma ingest_pending:
  assumes "\<not> is_end_marker p"
  shows "map_of (packet_buffer (ingest st p)) (serial p) =
    Some (case map_of (packet_buffer st) (serial p) of None \<Rightarrow> [(0, p)] | Some d \<Rightarrow> AList.update (length d) p d)"
  using assms by (cases "map_of (packet_buffer st) (serial p)") (simp_all add: ingest_first ingest_next update_conv' map_add_def)

lemma ingest_store_readings:
  "\<not> is_end_marker p \<Longrightarrow> sensor_readings (ingest st p) = sensor_readings st"
  by (simp add: ingest_def buffer_getitem_def split: option.splits)

lemma collect_fold:
  "foldl (\<lambda>(combined, raw) packet_info.
            (dict_update combined (channel_data packet_info), raw @ [raw_packet packet_info]))
         (c, r) ps
   = (foldl dict_update c (map channel_data ps), r @ map raw_packet ps)"
  by (induction ps arbitrary: c r) simp_all

lemma process_present:
  assumes "map_of (packet_buffer st) D = Some d"
  shows "process_complete_dataset st D =
    st\<lparr>sensor_readings := sensor_readings st @
          [\<lparr>serial_number = D, row_channel_data = foldl dict_update [] (map (channel_data \<circ> snd) d),
            raw_packets = map (raw_packet \<circ> snd) d\<rparr>],
       packet_buffer := AList.delete D (packet_buffer st)\<rparr>"
  using assms by (simp add: process_complete_dataset_def buffer_getitem_def collect_fold)

lemma ingest_end_present:
  assumes "is_end_marker t" "map_of (packet_buffer st) (serial t) = Some d"
  shows "ingest st t =
    st\<lparr>sensor_readings := sensor_readings st @
          [\<lparr>serial_number = serial t, row_channel_data = foldl dict_update [] (map (channel_data \<circ> snd) d),
            raw_packets = map (raw_packet \<circ> snd) d\<rparr>],
       packet_buffer := AList.delete (serial t) (packet_buffer st)\<rparr>"
  using assms by (simp add: ingest_def dict_contains_map_of process_present)

lemma ingest_other:
  "serial p \<noteq> D \<Longrightarrow> map_of (packet_buffer (ingest st p)) D = map_of (packet_buffer st) D"
  by (auto simp: ingest_def buffer_getitem_def process_complete_dataset_def collect_fold
      update_conv' delete_conv' map_add_def split: option.splits prod.splits)

lemma ingest_fragments:
  assumes "\<forall>f\<in>set fs. serial f = D \<and> \<not> is_end_marker f"
    and "map_of (packet_buffer st) D = Some (enumerate 0 gs)"
  shows "map_of (packet_buffer (foldl ingest st fs)) D = Some (enumerate 0 (gs @ fs))
     \<and> sensor_readings (foldl ingest st fs) = sensor_readings st"
  using assms
proof (induction fs arbitrary: st gs)
  case Nil
  then show ?case by simp
next
  case (Cons f fs)
  have f: "serial f = D" "\<not> is_end_marker f" using Cons.prems(1) by auto
  have "map_of (packet_buffer (ingest st f)) D = Some (enumerate 0 (gs @ [f]))"
    using ingest_pending [OF f(2), of st] Cons.prems(2) f(1) by (simp add: update_enumerate)
  moreover have "\<forall>f\<in>set fs. serial f = D \<and> \<not> is_end_marker f" using Cons.prems(1) by simp
  ultimately have "map_of (packet_buffer (foldl ingest (ingest st f) fs)) D = Some (enumerate 0 ((gs @ [f]) @ fs))
     \<and> sensor_readings (foldl ingest (ingest st f) fs) = sensor_readings (ingest st f)"
    by (rule Cons.IH [rotated])
  then show ?case using f(2) by (simp add: ingest_store_readings)
qed

lemma ingest_fragments_fresh:
  assumes "\<forall>f\<in>set fs. serial f = D \<and> \<not> is_end_marker f" "fs \<noteq> []"
    and "map_of (packet_buffer st) D = None"
  shows "map_of (packet_buffer (foldl ingest st fs)) D = Some (enumerate 0 fs)
     \<and> sensor_readings (foldl ingest st fs) = sensor_readings st"
proof (cases fs)
  case Nil
  then show ?thesis using assms(2) by simp
next
  case (Cons f fs')
  have f: "serial f = D" "\<not> is_end_marker f" using assms(1) Cons by auto
  have "map_of (packet_buffer (ingest st f)) D = Some (enumerate 0 ([] @ [f]))"
    using ingest_pending [OF f(2), of st] assms(3) f(1) by simp
  moreover have "\<forall>f\<in>set fs'. serial f = D \<and> \<not> is_end_marker f" using assms(1) Cons by simp
  ultimately have "map_of (packet_buffer (foldl ingest (ingest st f) fs')) D = Some (enumerate 0 (([] @ [f]) @ fs'))
     \<and> sensor_readings (foldl ingest (ingest st f) fs') = sensor_readings (ingest st f)"
    by (rule ingest_fragments [rotated])
  then show ?thesis using f(2) Cons by (simp add: ingest_store_readings)
qed

lemma map_snd_enumerate: "map snd (enumerate n xs) = xs"
  by (simp add: enumerate_eq_zip)

lemma complete_transmission:
  assumes "\<forall>f\<in>set fs. serial f = D \<and> \<not> is_end_marker f" "fs \<noteq> []"
    and "serial t = D" "is_end_marker t"
    and "\<not> dict_contains D (packet_buffer st)"
  shows "sensor_readings (ingest (foldl ingest st fs) t) = sensor_readings st @
           [\<lparr>serial_number = D, row_channel_data = foldl dict_update [] (map channel_data fs),
             raw_packets = map raw_packet fs\<rparr>]"
    and "\<not> dict_contains D (packet_buffer (ingest (foldl ingest st fs) t))"
proof -
  have none: "map_of (packet_buffer st) D = None"
    using assms(5) by (simp add: dict_contains_map_of)
  note acc = ingest_fragments_fresh [OF assms(1,2) none]
  have pend: "map_of (packet_buffer (foldl ingest st fs)) (serial t) = Some (enumerate 0 fs)"
    using acc assms(3) by simp
  have sel: "map (channel_data \<circ> snd) (enumerate 0 fs) = map channel_data fs"
    "map (raw_packet \<circ> snd) (enumerate 0 fs) = map raw_packet fs"
    by (simp_all add: map_snd_enumerate flip: map_map)
  show "sensor_readings (ingest (foldl ingest st fs) t) = sensor_readings st @
           [\<lparr>serial_number = D, row_channel_data = foldl dict_update [] (map channel_data fs),
             raw_packets = map raw_packet fs\<rparr>]"
    using acc assms(3) by (simp add: ingest_end_present [OF assms(4) pend] sel)
  show "\<not> dict_contains D (packet_buffer (ingest (foldl ingest st fs) t))"
    using assms(3) by (simp add: ingest_end_present [OF assms(4) pend] dict_contains_map_of delete_conv')
qed

text \<open>\<open>dict.update\<close> seen through \<open>map_of\<close>: the later dictionary wins on a shared key.\<close>

lemma dict_update_Cons: "dict_update d ((k, v) # e) = dict_update (AList.update k v d) e"
  by (simp add: dict_update_def)

lemma map_of_dict_update:
  "distinct (map fst e) \<Longrightarrow> map_of (dict_update d e) = map_of d ++ map_of e"
proof (induction e arbitrary: d)
  case Nil
  then show ?case by (simp add: dict_update_def)
next
  case (Cons kv e)
  obtain k v where kv: "kv = (k, v)" by (cases kv)
  have notin: "k \<notin> dom (map_of e)" using Cons.prems kv by (simp add: dom_map_of_conv_image_fst)
  have "map_of (dict_update d (kv # e)) = (map_of d)(k \<mapsto> v) ++ map_of e"
    using Cons kv by (simp add: dict_update_Cons update_conv')
  also have "\<dots> = (map_of d ++ map_of e)(k \<mapsto> v)"
    using notin by (simp add: map_add_upd_left)
  also have "\<dots> = map_of d ++ map_of (kv # e)"
    using kv by simp
  finally show ?case .
qed

lemma distinct_dict_update:
  "distinct (map fst d) \<Longrightarrow> distinct (map fst (dict_update d e))"
  by (induction e arbitrary: d) (auto simp: dict_update_def distinct_update)

lemma map_of_merge:
  assumes "\<forall>f\<in>set fs. distinct (map fst (channel_data f))"
  shows "map_of (foldl dict_update d (map channel_data fs)) =
         foldl (\<lambda>m f. m ++ map_of (channel_data f)) (map_of d) fs"
  using assms by (induction fs arbitrary: d) (simp_all add: map_of_dict_update)

lemma ingest_distinct:
  "distinct (map fst (packet_buffer st)) \<Longrightarrow> distinct (map fst (packet_buffer (ingest st p)))"
  by (auto simp: ingest_def buffer_getitem_def process_complete_dataset_def collect_fold
      distinct_update distinct_delete map_of_eq_None_iff split: option.splits prod.splits)

lemma foldl_ingest_distinct:
  "distinct (map fst (packet_buffer st)) \<Longrightarrow> distinct (map fst (packet_buffer (foldl ingest st ps)))"
  by (induction ps arbitrary: st) (simp_all add: ingest_distinct)

text \<open>What ingest does to device D's entry and to the rows depends on D's entry only.\<close>

lemma ingest_own:
  assumes "map_of (packet_buffer s1) (serial p) = map_of (packet_buffer s2) (serial p)"
  shows "map_of (packet_buffer (ingest s1 p)) (serial p) = map_of (packet_buffer (ingest s2 p)) (serial p)
    \<and> (\<exists>rs. sensor_readings (ingest s1 p) = sensor_readings s1 @ rs
           \<and> sensor_readings (ingest s2 p) = sensor_readings s2 @ rs
           \<and> (\<forall>r\<in>set rs. serial_number r = serial p))"
proof (cases "is_end_marker p")
  case False
  then show ?thesis using assms by (simp add: ingest_pending ingest_store_readings)
next
  case True
  show ?thesis
  proof (cases "map_of (packet_buffer s1) (serial p)")
    case None
    then show ?thesis using True assms by (simp add: ingest_end_absent dict_contains_map_of)
  next
    case (Some d)
    then have "map_of (packet_buffer s2) (serial p) = Some d" using assms by simp
    then show ?thesis using Some True by (simp add: ingest_end_present delete_conv')
  qed
qed

lemma ingest_rows_other:
  "\<exists>rs. sensor_readings (ingest st p) = sensor_readings st @ rs \<and> (\<forall>r\<in>set rs. serial_number r = serial p)"
  using ingest_own [of st p st] by auto

lemma isolation:
  assumes "map_of (packet_buffer s1) D = map_of (packet_buffer s2) D"
    and "filter (\<lambda>r. serial_number r = D) (sensor_readings s1) = sensor_readings s2"
  shows "filter (\<lambda>r. serial_number r = D) (sensor_readings (foldl ingest s1 ps))
       = sensor_readings (foldl ingest s2 (filter (\<lambda>p. serial p = D) ps))
     \<and> map_of (packet_buffer (foldl ingest s1 ps)) D
       = map_of (packet_buffer (foldl ingest s2 (filter (\<lambda>p. serial p = D) ps))) D"
  using assms
proof (induction ps arbitrary: s1 s2)
  case Nil
  then show ?case by simp
next
  case (Cons p ps)
  show ?case
  proof (cases "serial p = D")
    case True
    from ingest_own [of s1 p s2] Cons.prems(1) True
    obtain rs where rs: "map_of (packet_buffer (ingest s1 p)) D = map_of (packet_buffer (ingest s2 p)) D"
      "sensor_readings (ingest s1 p) = sensor_readings s1 @ rs"
      "sensor_readings (ingest s2 p) = sensor_readings s2 @ rs"
      "\<forall>r\<in>set rs. serial_number r = D" by auto
    have "filter (\<lambda>r. serial_number r = D) (sensor_readings (ingest s1 p)) = sensor_readings (ingest s2 p)"
      using rs Cons.prems(2) by simp
    from Cons.IH [OF rs(1) this] show ?thesis using True by simp
  next
    case False
    from ingest_rows_other [of s1 p]
    obtain rs where rs: "sensor_readings (ingest s1 p) = sensor_readings s1 @ rs"
      "\<forall>r\<in>set rs. serial_number r = serial p" by auto
    have "filter (\<lambda>r. serial_number r = D) rs = []" using rs(2) False by (auto simp: filter_empty_conv)
    then have a: "filter (\<lambda>r. serial_number r = D) (sensor_readings (ingest s1 p)) = sensor_readings s2"
      using rs(1) Cons.prems(2) by simp
    have b: "map_of (packet_buffer (ingest s1 p)) D = map_of (packet_buffer s2) D"
      using ingest_other [OF False] Cons.prems(1) by simp
    from Cons.IH [OF b a] show ?thesis using False by simp
  qed
qed

subsection \<open>Claims about the buffer\<close>

text \<open>
  C6. A terminator whose serial has no entry in \<open>packet_buffer\<close> changes nothing: no row is
  handed to the sinks, and the buffer (which gets no entry for that serial) and the rows are
  the ones before.
\<close>

theorem terminator_without_pending:
  "is_end_marker t \<Longrightarrow> \<not> dict_contains (serial t) (packet_buffer st) \<Longrightarrow> ingest st t = st"
  by (simp add: ingest_def)

theorem terminator_without_pending_witness:
  "is_end_marker \<lparr>serial = lit ''A'', channel_data = [], checksum = lit ''K'',
      raw_packet = lit ''A<sendVal>K'', is_end_marker = True\<rparr>
   \<and> \<not> dict_contains (lit ''A'')
        [(lit ''B'', [(0, \<lparr>serial = lit ''B'', channel_data = [(lit ''0'', None :: rat option)],
            checksum = lit ''K'', raw_packet = lit ''B<sendVal 0=NaN>K'', is_end_marker = False\<rparr>)])]
   \<and> ingest \<lparr>packet_buffer =
        [(lit ''B'', [(0, \<lparr>serial = lit ''B'', channel_data = [(lit ''0'', None :: rat option)],
            checksum = lit ''K'', raw_packet = lit ''B<sendVal 0=NaN>K'', is_end_marker = False\<rparr>)])],
        sensor_readings = []\<rparr>
       \<lparr>serial = lit ''A'', channel_data = [], checksum = lit ''K'',
         raw_packet = lit ''A<sendVal>K'', is_end_marker = True\<rparr>
     = \<lparr>packet_buffer =
        [(lit ''B'', [(0, \<lparr>serial = lit ''B'', channel_data = [(lit ''0'', None)],
            checksum = lit ''K'', raw_packet = lit ''B<sendVal 0=NaN>K'', is_end_marker = False\<rparr>)])],
        sensor_readings = []\<rparr>"
  using terminator_without_pending
    [of "\<lparr>serial = lit ''A'', channel_data = [], checksum = lit ''K'',
         raw_packet = lit ''A<sendVal>K'', is_end_marker = True\<rparr>"
        "\<lparr>packet_buffer =
        [(lit ''B'', [(0, \<lparr>serial = lit ''B'', channel_data = [(lit ''0'', None :: rat option)],
            checksum = lit ''K'', raw_packet = lit ''B<sendVal 0=NaN>K'', is_end_marker = False\<rparr>)])],
        sensor_readings = []\<rparr>"]
  by (simp add: dict_contains_def lit_def)

text \<open>
  C1. Non-terminator fragments of device D, received while D has nothing pending, followed by
  a terminator of D: exactly one row is handed to the sinks. Its channel data is the
  last-write-wins merge of the fragments' channel data in arrival order, its raw packets are
  the fragments' texts in arrival order (the terminator's is not among them), and D has no
  entry in the buffer afterwards. The sequence is not empty (for the empty one see C6), and
  a fragment's channel data, a dictionary, has each key once.
\<close>

theorem complete_transmission_reading:
  assumes "fs \<noteq> []"
    and "\<forall>f\<in>set fs. serial f = D \<and> \<not> is_end_marker f \<and> distinct (map fst (channel_data f))"
    and "serial t = D" and "is_end_marker t"
    and "\<not> dict_contains D (packet_buffer st)"
  shows "\<exists>cd. sensor_readings (ingest (foldl ingest st fs) t) =
             sensor_readings st @
               [\<lparr>serial_number = D, row_channel_data = cd, raw_packets = map raw_packet fs\<rparr>]
           \<and> map_of cd = foldl (\<lambda>m f. m ++ map_of (channel_data f)) Map.empty fs
           \<and> \<not> dict_contains D (packet_buffer (ingest (foldl ingest st fs) t))"
proof -
  have own: "\<forall>f\<in>set fs. serial f = D \<and> \<not> is_end_marker f"
    and keys: "\<forall>f\<in>set fs. distinct (map fst (channel_data f))"
    using assms(2) by auto
  have "map_of (foldl dict_update [] (map channel_data fs)) =
        foldl (\<lambda>m f. m ++ map_of (channel_data f)) Map.empty fs"
    using map_of_merge [OF keys, of "[]"] by simp
  with complete_transmission [OF own assms(1,3,4,5)] show ?thesis
    by blast
qed

theorem complete_transmission_reading_witness:
  "let f1 = \<lparr>serial = lit ''A'', channel_data = [(lit ''0'', Some (1 :: rat)), (lit ''1'', None)],
             checksum = lit ''K'', raw_packet = lit ''A<sendVal 0=1;1=NaN>K'',
             is_end_marker = False\<rparr>;
       f2 = \<lparr>serial = lit ''A'', channel_data = [(lit ''1'', Some 2)],
             checksum = lit ''K'', raw_packet = lit ''A<sendVal 1=2>K'', is_end_marker = False\<rparr>;
       t = \<lparr>serial = lit ''A'', channel_data = [], checksum = lit ''K'',
            raw_packet = lit ''A<sendVal>K'', is_end_marker = True\<rparr>;
       st = \<lparr>packet_buffer = [], sensor_readings = []\<rparr>
   in [f1, f2] \<noteq> []
      \<and> serial f1 = lit ''A'' \<and> \<not> is_end_marker f1 \<and> distinct (map fst (channel_data f1))
      \<and> serial f2 = lit ''A'' \<and> \<not> is_end_marker f2 \<and> distinct (map fst (channel_data f2))
      \<and> serial t = lit ''A'' \<and> is_end_marker t
      \<and> \<not> dict_contains (lit ''A'') (packet_buffer st)
      \<and> (\<exists>cd. sensor_readings (ingest (foldl ingest st [f1, f2]) t) =
                sensor_readings st @
                  [\<lparr>serial_number = lit ''A'', row_channel_data = cd,
                    raw_packets = map raw_packet [f1, f2]\<rparr>]
              \<and> map_of cd = foldl (\<lambda>m f. m ++ map_of (channel_data f)) Map.empty [f1, f2]
              \<and> \<not> dict_contains (lit ''A'') (packet_buffer (ingest (foldl ingest st [f1, f2]) t)))
      \<and> sensor_readings (ingest (foldl ingest st [f1, f2]) t) =
            [\<lparr>serial_number = lit ''A'',
              row_channel_data = [(lit ''0'', Some 1), (lit ''1'', Some 2)],
              raw_packets = [lit ''A<sendVal 0=1;1=NaN>K'', lit ''A<sendVal 1=2>K'']\<rparr>]"
proof -
  let ?f1 = "\<lparr>serial = lit ''A'', channel_data = [(lit ''0'', Some (1 :: rat)), (lit ''1'', None)],
             checksum = lit ''K'', raw_packet = lit ''A<sendVal 0=1;1=NaN>K'',
             is_end_marker = False\<rparr>"
  let ?f2 = "\<lparr>serial = lit ''A'', channel_data = [(lit ''1'', Some (2 :: rat))],
             checksum = lit ''K'', raw_packet = lit ''A<sendVal 1=2>K'', is_end_marker = False\<rparr>"
  let ?t = "\<lparr>serial = lit ''A'', channel_data = [] :: rat channel_dict, checksum = lit ''K'',
            raw_packet = lit ''A<sendVal>K'', is_end_marker = True\<rparr>"
  let ?st = "\<lparr>packet_buffer = [], sensor_readings = []\<rparr> :: rat server"
  have hyps: "[?f1, ?f2] \<noteq> []"
    "\<forall>f\<in>set [?f1, ?f2]. serial f = lit ''A'' \<and> \<not> is_end_marker f \<and> distinct (map fst (channel_data f))"
    "serial ?t = lit ''A''" "is_end_marker ?t" "\<not> dict_contains (lit ''A'') (packet_buffer ?st)"
    by (simp_all add: lit_def dict_contains_def)
  note inst = complete_transmission_reading [OF hyps]
  have row: "sensor_readings (ingest (foldl ingest ?st [?f1, ?f2]) ?t) =
            [\<lparr>serial_number = lit ''A'',
              row_channel_data = [(lit ''0'', Some 1), (lit ''1'', Some 2)],
              raw_packets = [lit ''A<sendVal 0=1;1=NaN>K'', lit ''A<sendVal 1=2>K'']\<rparr>]"
    by (simp add: ingest_def process_complete_dataset_def dict_contains_def buffer_getitem_def
        dict_update_def lit_def)
  show ?thesis
    unfolding Let_def using hyps inst row by (intro conjI) simp_all
qed

text \<open>
  C7. The buffer keeps the devices apart. Ingesting a fragment leaves the pending packets of
  every other serial as they are; the rows produced for a serial D in a run over any
  interleaving of fragments are the rows a run over D's fragments alone produces, so no
  other device's channel data or raw text reaches them; and packet_buffer never holds two
  entries for one serial.
\<close>

theorem device_isolation:
  "(serial p \<noteq> D \<longrightarrow> map_of (packet_buffer (ingest st p)) D = map_of (packet_buffer st) D)
   \<and> filter (\<lambda>r. serial_number r = D) (sensor_readings (foldl ingest st ps))
       = sensor_readings
           (foldl ingest (st\<lparr>sensor_readings := filter (\<lambda>r. serial_number r = D) (sensor_readings st)\<rparr>)
              (filter (\<lambda>p. serial p = D) ps))
   \<and> (distinct (map fst (packet_buffer st))
        \<longrightarrow> distinct (map fst (packet_buffer (foldl ingest st ps))))"
  using ingest_other [of p D st]
    isolation [of st D "st\<lparr>sensor_readings := filter (\<lambda>r. serial_number r = D) (sensor_readings st)\<rparr>" ps]
    foldl_ingest_distinct [of st ps]
  by simp

theorem device_isolation_witness:
  "let a1 = \<lparr>serial = lit ''A'', channel_data = [(lit ''0'', Some (1 :: rat))],
             checksum = lit ''K'', raw_packet = lit ''A<sendVal 0=1>K'', is_end_marker = False\<rparr>;
       b1 = \<lparr>serial = lit ''B'', channel_data = [(lit ''0'', Some 5)],
             checksum = lit ''K'', raw_packet = lit ''B<sendVal 0=5>K'', is_end_marker = False\<rparr>;
       a2 = \<lparr>serial = lit ''A'', channel_data = [(lit ''1'', None)],
             checksum = lit ''K'', raw_packet = lit ''A<sendVal 1=NaN>K'', is_end_marker = False\<rparr>;
       ta = \<lparr>serial = lit ''A'', channel_data = [], checksum = lit ''K'',
             raw_packet = lit ''A<sendVal>K'', is_end_marker = True\<rparr>;
       tb = \<lparr>serial = lit ''B'', channel_data = [], checksum = lit ''K'',
             raw_packet = lit ''B<sendVal>K'', is_end_marker = True\<rparr>;
       st = \<lparr>packet_buffer = [], sensor_readings = []\<rparr>
   in serial b1 \<noteq> lit ''A''
      \<and> map_of (packet_buffer (ingest (ingest st a1) b1)) (lit ''A'')
          = map_of (packet_buffer (ingest st a1)) (lit ''A'')
      \<and> filter (\<lambda>r. serial_number r = lit ''A'')
           (sensor_readings (foldl ingest st [a1, b1, a2, tb, ta]))
          = sensor_readings (foldl ingest st [a1, a2, ta])
      \<and> sensor_readings (foldl ingest st [a1, b1, a2, tb, ta])
          = [\<lparr>serial_number = lit ''B'', row_channel_data = [(lit ''0'', Some 5)],
              raw_packets = [lit ''B<sendVal 0=5>K'']\<rparr>,
             \<lparr>serial_number = lit ''A'', row_channel_data = [(lit ''0'', Some 1), (lit ''1'', None)],
              raw_packets = [lit ''A<sendVal 0=1>K'', lit ''A<sendVal 1=NaN>K'']\<rparr>]
      \<and> distinct (map fst (packet_buffer st))
      \<and> distinct (map fst (packet_buffer (foldl ingest st [a1, b1, a2, tb, ta])))"
proof -
  let ?a1 = "\<lparr>serial = lit ''A'', channel_data = [(lit ''0'', Some (1 :: rat))],
             checksum = lit ''K'', raw_packet = lit ''A<sendVal 0=1>K'', is_end_marker = False\<rparr>"
  let ?b1 = "\<lparr>serial = lit ''B'', channel_data = [(lit ''0'', Some (5 :: rat))],
             checksum = lit ''K'', raw_packet = lit ''B<sendVal 0=5>K'', is_end_marker = False\<rparr>"
  let ?a2 = "\<lparr>serial = lit ''A'', channel_data = [(lit ''1'', None :: rat option)],
             checksum = lit ''K'', raw_packet = lit ''A<sendVal 1=NaN>K'', is_end_marker = False\<rparr>"
  let ?ta = "\<lparr>serial = lit ''A'', channel_data = [] :: rat channel_dict, checksum = lit ''K'',
             raw_packet = lit ''A<sendVal>K'', is_end_marker = True\<rparr>"
  let ?tb = "\<lparr>serial = lit ''B'', channel_data = [] :: rat channel_dict, checksum = lit ''K'',
             raw_packet = lit ''B<sendVal>K'', is_end_marker = True\<rparr>"
  let ?st = "\<lparr>packet_buffer = [], sensor_readings = []\<rparr> :: rat server"
  have ne: "serial ?b1 \<noteq> lit ''A''" by (simp add: lit_def)
  have d: "distinct (map fst (packet_buffer ?st))" by simp
  note one = device_isolation [of ?b1 "lit ''A''" "ingest ?st ?a1" "[]"]
  note run = device_isolation [of ?b1 "lit ''A''" ?st "[?a1, ?b1, ?a2, ?tb, ?ta]"]
  have own: "filter (\<lambda>p. serial p = lit ''A'') [?a1, ?b1, ?a2, ?tb, ?ta] = [?a1, ?a2, ?ta]"
    by (simp add: lit_def)
  have rows: "sensor_readings (foldl ingest ?st [?a1, ?b1, ?a2, ?tb, ?ta])
          = [\<lparr>serial_number = lit ''B'', row_channel_data = [(lit ''0'', Some 5)],
              raw_packets = [lit ''B<sendVal 0=5>K'']\<rparr>,
             \<lparr>serial_number = lit ''A'', row_channel_data = [(lit ''0'', Some 1), (lit ''1'', None)],
              raw_packets = [lit ''A<sendVal 0=1>K'', lit ''A<sendVal 1=NaN>K'']\<rparr>]"
    by (simp add: ingest_def process_complete_dataset_def dict_contains_def buffer_getitem_def
        dict_update_def lit_def)
  have c2: "map_of (packet_buffer (ingest (ingest ?st ?a1) ?b1)) (lit ''A'')
          = map_of (packet_buffer (ingest ?st ?a1)) (lit ''A'')"
    using one ne by blast
  have c3: "filter (\<lambda>r. serial_number r = lit ''A'')
           (sensor_readings (foldl ingest ?st [?a1, ?b1, ?a2, ?tb, ?ta]))
          = sensor_readings (foldl ingest ?st [?a1, ?a2, ?ta])"
    using run unfolding own by simp
  have c6: "distinct (map fst (packet_buffer (foldl ingest ?st [?a1, ?b1, ?a2, ?tb, ?ta])))"
    using run d by blast
  show ?thesis
    unfolding Let_def using ne c2 c3 rows d c6 by (intro conjI)
qed

section \<open>The parser\<close>

subsection \<open>Splitting and indexing\<close>

lemma str_split_nonempty: "str_split sep s \<noteq> []"
  by (induction s) (auto split: list.splits)

lemma str_split_no_sep: "sep \<notin> set s \<Longrightarrow> str_split sep s = [s]"
  by (induction s) auto

lemma str_split_first: "sep \<notin> set a \<Longrightarrow> str_split sep (a @ sep # b) = a # str_split sep b"
  by (induction a) auto

lemma str_split_length: "length (str_split sep s) = Suc (count_list s sep)"
  by (induction s) (auto simp: str_split_nonempty split: list.splits)

lemma str_split_last: "last (str_split sep (a @ sep # b)) = last (str_split sep b)"
proof (induction a)
  case Nil
  then show ?case by (simp add: str_split_nonempty)
next
  case (Cons c a)
  obtain p ps where sp: "str_split sep (a @ sep # b) = p # ps"
    using str_split_nonempty [of sep "a @ sep # b"] by (cases "str_split sep (a @ sep # b)") auto
  have "length (str_split sep (a @ sep # b)) \<ge> 2"
    by (simp add: str_split_length)
  then have "ps \<noteq> []" using sp by auto
  then show ?case using Cons sp by simp
qed

lemma getitem_0: "getitem (x # xs) 0 = Inr x"
  by (simp add: getitem_def)

lemma getitem_1: "getitem (x # y # xs) 1 = Inr y"
  by (simp add: getitem_def)

lemma getitem_1_single: "getitem [x] 1 = Inl IndexError"
  by (simp add: getitem_def)

lemma getitem_last: "xs \<noteq> [] \<Longrightarrow> getitem xs (- 1) = Inr (last xs)"
  by (cases xs rule: rev_cases) (simp_all add: getitem_def nth_append)

lemma split_hd: "hd (str_split sep s) = takeWhile (\<lambda>c. c \<noteq> sep) s"
  by (induction s) (auto simp: str_split_nonempty split: list.splits)

lemma getitem_split_0: "getitem (str_split sep s) 0 = Inr (takeWhile (\<lambda>c. c \<noteq> sep) s)"
  using split_hd [of sep s] str_split_nonempty [of sep s]
  by (cases "str_split sep s") (simp_all add: getitem_0)

lemma getitem_split_1_none: "sep \<notin> set s \<Longrightarrow> getitem (str_split sep s) 1 = Inl IndexError"
  by (simp add: str_split_no_sep getitem_1_single)

lemma getitem_split_1: 
  assumes "sep \<notin> set a"
  shows "getitem (str_split sep (a @ sep # b)) 1 = Inr (takeWhile (\<lambda>c. c \<noteq> sep) b)"
proof -
  obtain x xs where "str_split sep b = x # xs"
    using str_split_nonempty [of sep b] by (cases "str_split sep b") auto
  moreover from this have "x = takeWhile (\<lambda>c. c \<noteq> sep) b"
    using split_hd [of sep b] by simp
  ultimately show ?thesis using assms by (simp add: str_split_first getitem_1)
qed

lemma getitem_split_last:
  "sep \<notin> set b \<Longrightarrow> getitem (str_split sep (a @ sep # b)) (- 1) = Inr b"
  by (simp add: getitem_last str_split_nonempty str_split_last str_split_no_sep)

lemma getitem_split_last_total: "\<exists>c. getitem (str_split sep s) (- 1) = Inr c"
  by (simp add: getitem_last str_split_nonempty)

lemma takeWhile_takeWhile: "takeWhile P (takeWhile Q xs) = takeWhile (\<lambda>x. Q x \<and> P x) xs"
  by (induction xs) auto

subsection \<open>The shape of a parse\<close>

lemma parse_packet_undecodable:
  "utf8_decode b = None \<Longrightarrow> parse_packet F b = Inl UnicodeDecodeError"
  by (simp add: parse_packet_def)

lemma parse_packet_no_lt:
  "utf8_decode b = Some s \<Longrightarrow> LT \<notin> set s \<Longrightarrow> parse_packet F b = Inl IndexError"
  by (simp add: parse_packet_def getitem_split_0 getitem_split_1_none)

lemma takeWhile_before: "sep \<notin> set a \<Longrightarrow> takeWhile (\<lambda>c. c \<noteq> sep) (a @ sep # b) = a"
  by (induction a) auto

lemma parse_packet_lt:
  assumes "utf8_decode b = Some (pre @ LT # rest)" "LT \<notin> set pre"
  shows "parse_packet F b =
    (case channel_block F (takeWhile (\<lambda>c. c \<noteq> LT \<and> c \<noteq> GT) rest) of
       Inl e \<Rightarrow> Inl e
     | Inr (cd, None) \<Rightarrow> Inl UnboundLocalError
     | Inr (cd, Some part) \<Rightarrow>
         Inr \<lparr>serial = pre, channel_data = cd,
              checksum = last (str_split GT (pre @ LT # rest)),
              raw_packet = pre @ LT # rest, is_end_marker = (str_strip part = [])\<rparr>)"
  using assms
  by (simp add: parse_packet_def getitem_split_0 getitem_split_1 getitem_last str_split_nonempty
      takeWhile_takeWhile takeWhile_before)

lemma channel_block_unmarked:
  "\<not> str_contains (lit ''sendVal'') c \<Longrightarrow> channel_block F c = Inr ([], None)"
  by (simp add: channel_block_def)

lemma channel_block_marked:
  "str_contains (lit ''sendVal'') c \<Longrightarrow>
   channel_block F c =
     (case (if str_strip (str_replace (lit ''sendVal'') [] c) \<noteq> []
            then parse_channels F [] (str_split SEMI (str_strip (str_replace (lit ''sendVal'') [] c)))
            else Inr []) of
        Inl e \<Rightarrow> Inl e
      | Inr cd \<Rightarrow> Inr (cd, Some (str_strip (str_replace (lit ''sendVal'') [] c))))"
  by (simp add: channel_block_def Let_def)

lemma str_strip_idem: "str_strip (str_strip s) = str_strip s"
proof (cases "dropWhile isspace s")
  case Nil
  show ?thesis unfolding str_strip_def Nil by simp
next
  case (Cons a y)
  have a: "\<not> isspace a" using Cons hd_dropWhile [of isspace s] by simp
  have "\<exists>w. dropWhile isspace (rev y @ [a]) = w @ [a] \<and> (w = [] \<or> \<not> isspace (hd w))"
  proof (cases "\<forall>x\<in>set (rev y). isspace x")
    case True
    then show ?thesis using a by (simp add: dropWhile_append)
  next
    case False
    then have "dropWhile isspace (rev y) \<noteq> []" by (simp add: dropWhile_eq_Nil_conv)
    then show ?thesis using False hd_dropWhile [of isspace "rev y"]
      by (auto simp: dropWhile_append)
  qed
  then obtain w where w: "dropWhile isspace (rev y @ [a]) = w @ [a]" "w = [] \<or> \<not> isspace (hd w)"
    by blast
  have st: "str_strip s = a # rev w" using Cons w by (simp add: str_strip_def)
  have "dropWhile isspace (w @ [a]) = w @ [a]"
    using w(2) a by (cases w) auto
  then show ?thesis unfolding st using a by (simp add: str_strip_def)
qed

lemma parse_channel_success_float:
  "isl (parse_channel F cd c) = isl (parse_channel G cd' c)"
  by (auto simp: parse_channel_def split: list.splits option.splits)

lemma parse_channels_success_float:
  "isl (parse_channels F cd cs) = isl (parse_channels G cd' cs)"
proof (induction cs arbitrary: cd cd')
  case Nil
  then show ?case by simp
next
  case (Cons c cs)
  show ?case
    using parse_channel_success_float [of F cd c G cd'] Cons.IH
    by (cases "parse_channel F cd c"; cases "parse_channel G cd' c") auto
qed

lemma parse_channel_distinct:
  "distinct (map fst cd) \<Longrightarrow> parse_channel F cd c = Inr cd' \<Longrightarrow> distinct (map fst cd')"
  by (auto simp: parse_channel_def distinct_update split: if_splits list.splits option.splits)

lemma parse_channels_distinct:
  "distinct (map fst cd) \<Longrightarrow> parse_channels F cd cs = Inr cd' \<Longrightarrow> distinct (map fst cd')"
  by (induction cs arbitrary: cd) (auto dest: parse_channel_distinct split: sum.splits)

lemma parse_channel_error: "parse_channel F cd c = Inl e \<Longrightarrow> e = ValueError"
  by (auto simp: parse_channel_def split: if_splits list.splits option.splits)

lemma parse_channels_error: "parse_channels F cd cs = Inl e \<Longrightarrow> e = ValueError"
  by (induction cs arbitrary: cd) (auto dest: parse_channel_error split: sum.splits)

lemma channel_block_error: "channel_block F c = Inl e \<Longrightarrow> e = ValueError"
  by (auto simp: channel_block_def Let_def dest: parse_channels_error split: if_splits sum.splits)

lemma channel_block_bound:
  "channel_block F c = Inr (cd, Some part) \<Longrightarrow>
   str_contains (lit ''sendVal'') c \<and> part = str_strip (str_replace (lit ''sendVal'') [] c)"
  by (auto simp: channel_block_def Let_def split: if_splits sum.splits)

lemma channel_block_empty_part:
  "channel_block F c = Inr (cd, Some []) \<Longrightarrow> cd = []"
  by (auto simp: channel_block_def Let_def split: if_splits sum.splits)

lemma channel_block_distinct:
  "channel_block F c = Inr (cd, part) \<Longrightarrow> distinct (map fst cd)"
  by (auto simp: channel_block_def Let_def dest: parse_channels_distinct [rotated]
      split: if_splits sum.splits)

lemma parse_packet_InrE:
  assumes "parse_packet F b = Inr f"
  obtains pre rest part where
    "utf8_decode b = Some (pre @ LT # rest)" "LT \<notin> set pre"
    "channel_block F (takeWhile (\<lambda>c. c \<noteq> LT \<and> c \<noteq> GT) rest) = Inr (channel_data f, Some part)"
    "f = \<lparr>serial = pre, channel_data = channel_data f,
          checksum = last (str_split GT (pre @ LT # rest)),
          raw_packet = pre @ LT # rest, is_end_marker = (str_strip part = [])\<rparr>"
proof (cases "utf8_decode b")
  case None
  then show ?thesis using assms by (simp add: parse_packet_undecodable)
next
  case (Some s)
  show ?thesis
  proof (cases "LT \<in> set s")
    case False
    then show ?thesis using assms Some by (simp add: parse_packet_no_lt)
  next
    case True
    then obtain pre rest where s: "s = pre @ LT # rest" "LT \<notin> set pre"
      by (auto dest: split_list_first)
    note eq = parse_packet_lt [OF Some [unfolded s(1)] s(2), of F]
    show ?thesis
    proof (cases "channel_block F (takeWhile (\<lambda>c. c \<noteq> LT \<and> c \<noteq> GT) rest)")
      case (Inl e)
      then show ?thesis using assms eq by simp
    next
      case (Inr r)
      obtain cd op where r: "r = (cd, op)" by (cases r)
      show ?thesis
      proof (cases op)
        case None
        then show ?thesis using assms eq Inr r by simp
      next
        case (Some part)
        have f: "f = \<lparr>serial = pre, channel_data = cd,
            checksum = last (str_split GT (pre @ LT # rest)),
            raw_packet = pre @ LT # rest, is_end_marker = (str_strip part = [])\<rparr>"
          using assms eq Inr r Some by simp
        then have "channel_data f = cd" by simp
        with f Inr r Some \<open>utf8_decode b = Some s\<close> s show ?thesis
          by (intro that [of pre rest part]) simp_all
      qed
    qed
  qed
qed

lemma parse_packet_error_kinds:
  "parse_packet F b = Inl e \<Longrightarrow>
     (e = UnicodeDecodeError \<and> utf8_decode b = None)
   \<or> (e = IndexError \<and> (\<exists>s. utf8_decode b = Some s \<and> LT \<notin> set s))
   \<or> ((e = ValueError \<or> e = UnboundLocalError) \<and> (\<exists>s. utf8_decode b = Some s \<and> LT \<in> set s))"
proof (cases "utf8_decode b")
  assume e: "parse_packet F b = Inl e"
  case None
  then show ?thesis using e by (simp add: parse_packet_undecodable)
next
  assume e: "parse_packet F b = Inl e"
  case (Some s)
  show ?thesis
  proof (cases "LT \<in> set s")
    case False
    then show ?thesis using e Some by (simp add: parse_packet_no_lt)
  next
    case True
    then obtain pre rest where s: "s = pre @ LT # rest" "LT \<notin> set pre"
      by (auto dest: split_list_first)
    note eq = parse_packet_lt [OF Some [unfolded s(1)] s(2), of F]
    have "e = ValueError \<or> e = UnboundLocalError"
      using e eq by (auto dest: channel_block_error split: sum.splits option.splits)
    then show ?thesis using Some True by simp
  qed
qed

lemma str_contains_char: "str_contains [c] s \<longleftrightarrow> c \<in> set s"
  by (induction s) (auto simp: startswith_def)

lemma set_str_strip: "set (str_strip s) \<subseteq> set s"
proof
  fix x assume "x \<in> set (str_strip s)"
  then have "x \<in> set (dropWhile isspace (rev (dropWhile isspace s)))"
    by (simp add: str_strip_def)
  then have "x \<in> set (rev (dropWhile isspace s))" by (rule set_dropWhileD)
  then have "x \<in> set (dropWhile isspace s)" by simp
  then show "x \<in> set s" by (rule set_dropWhileD)
qed

lemma utf8_decode_lt: "utf8_decode (CHR ''<'' # bs) = Some s \<Longrightarrow> \<exists>rest. s = LT # rest"
  by (auto simp: utf8_decode_def)

lemma start_decoded:
  "map (parse_packet F) ds = map Inr fs \<Longrightarrow> start F st ds = foldl ingest st fs"
proof (induction ds arbitrary: fs st)
  case Nil
  then show ?case by (simp add: start_def)
next
  case (Cons d ds)
  then obtain f fs' where fs: "fs = f # fs'" "parse_packet F d = Inr f"
    "map (parse_packet F) ds = map Inr fs'" by (cases fs) auto
  from Cons.IH [OF fs(3), of "ingest st f"] show ?case
    using fs by (simp add: start_def handle_datagram_def)
qed

lemma start_append: "start F st (ds @ es) = start F (start F st ds) es"
  by (simp add: start_def)

subsection \<open>Claims about the parser\<close>

lemma last_str_split: "last (str_split sep s) = rev (takeWhile (\<lambda>c. c \<noteq> sep) (rev s))"
proof (cases "sep \<in> set s")
  case False
  then have "takeWhile (\<lambda>c. c \<noteq> sep) (rev s) = rev s"
    by (auto simp: takeWhile_eq_all_conv)
  then have "rev (takeWhile (\<lambda>c. c \<noteq> sep) (rev s)) = s"
    by (simp only: rev_rev_ident)
  moreover have "last (str_split sep s) = s"
    by (simp add: str_split_no_sep [OF False])
  ultimately show ?thesis by (simp only:)
next
  case True
  then obtain a b where s: "s = a @ sep # b" "sep \<notin> set b"
    by (auto dest: split_list_last)
  have "takeWhile (\<lambda>c. c \<noteq> sep) (rev b @ sep # rev a) = rev b"
    using takeWhile_before [of sep "rev b" "rev a"] s(2) by simp
  then show ?thesis
    using s by (simp add: str_split_last str_split_no_sep)
qed

lemma last_str_split_append:
  assumes "sep \<notin> set t"
  shows "last (str_split sep (a @ t)) = last (str_split sep a) @ t"
proof -
  have "takeWhile (\<lambda>c. c \<noteq> sep) (rev t @ rev a) = rev t @ takeWhile (\<lambda>c. c \<noteq> sep) (rev a)"
    using assms by (intro takeWhile_append2) auto
  then show ?thesis by (simp add: last_str_split)
qed

lemma takeWhile_no_gt:
  "GT \<notin> set rest \<Longrightarrow>
   takeWhile (\<lambda>c. c \<noteq> LT \<and> c \<noteq> GT) rest = takeWhile (\<lambda>c. c \<noteq> LT) rest"
  by (induction rest) auto


text \<open>
  C3 as stated fails: a payload with a \<open><\<close> and no \<open>></\<close> is decoded. \<open>split('>')[0]\<close>
  cannot fail, so the text after the \<open><\<close> is taken whole as the bracketed content, and
  \<open>split('>')[-1]\<close> makes the whole payload the checksum.
\<close>

theorem missing_gt_counterexample:
  "GT \<notin> set (lit ''A<sendVal 0=NaN'')
   \<and> utf8_decode ''A<sendVal 0=NaN'' = Some (lit ''A<sendVal 0=NaN'')
   \<and> parse_packet decimal_float ''A<sendVal 0=NaN'' =
       Inr \<lparr>serial = lit ''A'', channel_data = [(lit ''0'', None)],
            checksum = lit ''A<sendVal 0=NaN'', raw_packet = lit ''A<sendVal 0=NaN'',
            is_end_marker = False\<rparr>"
  by (simp add: run_defs)

text \<open>
  C3, amended. Decoding fails at the delimiters (the \<open>IndexError\<close> of \<open>split('<')[1]\<close>, the
  spec's MalformedFrame) exactly when the decoded payload has no \<open><\<close>. A missing \<open>></\<close> is not
  an error: when no \<open>></\<close> follows the first \<open><\<close>, the bracketed content is the text after that
  \<open><\<close> up to the next \<open><\<close> or the end, the trailing token is the payload's text after its last
  \<open>></\<close> (the whole payload when it has none), and decoding goes on from there as for any
  payload. Whenever decoding fails, for whatever reason, no fragment is produced and the turn
  of the loop leaves the buffer and the rows as they were.
\<close>

theorem malformed_frame:
  "(parse_packet F b = Inl IndexError \<longleftrightarrow> (\<exists>s. utf8_decode b = Some s \<and> LT \<notin> set s))
   \<and> (utf8_decode b = Some (pre @ LT # rest) \<and> LT \<notin> set pre \<and> GT \<notin> set rest \<longrightarrow>
        parse_packet F b =
          (case channel_block F (takeWhile (\<lambda>c. c \<noteq> LT) rest) of
             Inl x \<Rightarrow> Inl x
           | Inr (cd, None) \<Rightarrow> Inl UnboundLocalError
           | Inr (cd, Some part) \<Rightarrow>
               Inr \<lparr>serial = pre, channel_data = cd,
                    checksum = (if GT \<in> set pre then last (str_split GT pre) else pre) @ LT # rest,
                    raw_packet = pre @ LT # rest, is_end_marker = (str_strip part = [])\<rparr>))
   \<and> (parse_packet F b = Inl e \<longrightarrow> handle_datagram F st b = st)"
proof (intro conjI iffI impI)
  assume "parse_packet F b = Inl IndexError"
  from parse_packet_error_kinds [OF this] show "\<exists>s. utf8_decode b = Some s \<and> LT \<notin> set s"
    by simp
next
  assume "\<exists>s. utf8_decode b = Some s \<and> LT \<notin> set s"
  then show "parse_packet F b = Inl IndexError"
    by (auto simp: parse_packet_no_lt)
next
  assume "parse_packet F b = Inl e"
  then show "handle_datagram F st b = st"
    by (simp add: handle_datagram_def)
next
  assume h: "utf8_decode b = Some (pre @ LT # rest) \<and> LT \<notin> set pre \<and> GT \<notin> set rest"
  then have "GT \<notin> set (LT # rest)" by simp
  then have "last (str_split GT (pre @ LT # rest)) = last (str_split GT pre) @ LT # rest"
    by (rule last_str_split_append)
  moreover have "last (str_split GT pre) = pre" if "GT \<notin> set pre"
    using that by (simp add: str_split_no_sep)
  ultimately have l: "last (str_split GT (pre @ LT # rest)) =
      (if GT \<in> set pre then last (str_split GT pre) else pre) @ LT # rest"
    by simp
  from h have d: "utf8_decode b = Some (pre @ LT # rest)" "LT \<notin> set pre" "GT \<notin> set rest"
    by simp_all
  show "parse_packet F b =
          (case channel_block F (takeWhile (\<lambda>c. c \<noteq> LT) rest) of
             Inl x \<Rightarrow> Inl x
           | Inr (cd, None) \<Rightarrow> Inl UnboundLocalError
           | Inr (cd, Some part) \<Rightarrow>
               Inr \<lparr>serial = pre, channel_data = cd,
                    checksum = (if GT \<in> set pre then last (str_split GT pre) else pre) @ LT # rest,
                    raw_packet = pre @ LT # rest, is_end_marker = (str_strip part = [])\<rparr>)"
    unfolding parse_packet_lt [OF d(1,2)] takeWhile_no_gt [OF d(3)] l ..
qed

theorem malformed_frame_witness:
  "utf8_decode ''A0=1K'' = Some (lit ''A0=1K'') \<and> LT \<notin> set (lit ''A0=1K'')
   \<and> parse_packet decimal_float ''A0=1K'' = Inl IndexError
   \<and> handle_datagram decimal_float
        \<lparr>packet_buffer = [(lit ''A'', [])], sensor_readings = []\<rparr> ''A0=1K''
       = \<lparr>packet_buffer = [(lit ''A'', [])], sensor_readings = []\<rparr>
   \<and> utf8_decode ''A<sendVal 0=NaN'' = Some (lit ''A'' @ LT # lit ''sendVal 0=NaN'')
   \<and> LT \<notin> set (lit ''A'') \<and> GT \<notin> set (lit ''sendVal 0=NaN'')
   \<and> parse_packet decimal_float ''A<sendVal 0=NaN'' =
       Inr \<lparr>serial = lit ''A'', channel_data = [(lit ''0'', None)],
            checksum = lit ''A<sendVal 0=NaN'', raw_packet = lit ''A<sendVal 0=NaN'',
            is_end_marker = False\<rparr>"
proof -
  have s: "utf8_decode ''A0=1K'' = Some (lit ''A0=1K'')" "LT \<notin> set (lit ''A0=1K'')"
    by (simp_all add: utf8_decode_def lit_def)
  note inst = malformed_frame [where F = decimal_float and b = "''A0=1K''" and e = IndexError
      and st = "\<lparr>packet_buffer = [(lit ''A'', [])], sensor_readings = []\<rparr>"]
  have e: "parse_packet decimal_float ''A0=1K'' = Inl IndexError"
    using inst s by blast
  have u: "handle_datagram decimal_float
        \<lparr>packet_buffer = [(lit ''A'', [])], sensor_readings = []\<rparr> ''A0=1K''
       = \<lparr>packet_buffer = [(lit ''A'', [])], sensor_readings = []\<rparr>"
    using inst e by blast
  have g: "utf8_decode ''A<sendVal 0=NaN'' = Some (lit ''A'' @ LT # lit ''sendVal 0=NaN'')"
    "LT \<notin> set (lit ''A'')" "GT \<notin> set (lit ''sendVal 0=NaN'')"
    by (simp_all add: utf8_decode_def lit_def)
  have cb: "channel_block decimal_float (takeWhile (\<lambda>c. c \<noteq> LT) (lit ''sendVal 0=NaN'')) =
      Inr ([(lit ''0'', None)], Some (lit ''0=NaN''))"
    by (simp add: run_defs)
  note inst2 = malformed_frame [where F = decimal_float and b = "''A<sendVal 0=NaN''"
      and pre = "lit ''A''" and rest = "lit ''sendVal 0=NaN''", THEN conjunct2, THEN conjunct1,
      rule_format, OF conjI [OF g(1) conjI [OF g(2,3)]]]
  have p: "parse_packet decimal_float ''A<sendVal 0=NaN'' =
       Inr \<lparr>serial = lit ''A'', channel_data = [(lit ''0'', None)],
            checksum = lit ''A<sendVal 0=NaN'', raw_packet = lit ''A<sendVal 0=NaN'',
            is_end_marker = False\<rparr>"
    unfolding inst2 cb by (simp add: lit_def str_strip_def isspace_def)
  from s e u g p show ?thesis by (intro conjI)
qed


text \<open>
  C5 as stated fails in one direction: the end marker is read off the text of the body, not
  off the channels parsed from it. A body that is not empty and yields no channel (no token
  with an \<open>=\<close>, or values that are not numbers) gives a fragment without channels that is not
  an end marker.
\<close>

theorem empty_channels_counterexample:
  "parse_packet decimal_float ''A<sendVal x>K'' =
     Inr \<lparr>serial = lit ''A'', channel_data = [], checksum = lit ''K'',
          raw_packet = lit ''A<sendVal x>K'', is_end_marker = False\<rparr>"
  by (simp add: run_defs)

text \<open>
  C5, amended. A decoded end marker never carries channel data, and a fragment is an end
  marker exactly when its body (the bracketed content without \<open>sendVal\<close>, trimmed) is empty.
\<close>

theorem end_marker_carries_no_channels:
  assumes "parse_packet F b = Inr f"
  shows "(is_end_marker f \<longrightarrow> channel_data f = [])
     \<and> (\<exists>pre rest. utf8_decode b = Some (pre @ LT # rest) \<and> LT \<notin> set pre
           \<and> is_end_marker f =
               (str_strip (str_replace (lit ''sendVal'') []
                  (takeWhile (\<lambda>c. c \<noteq> LT \<and> c \<noteq> GT) rest)) = []))"
proof -
  from assms obtain pre rest part where d: "utf8_decode b = Some (pre @ LT # rest)" "LT \<notin> set pre"
    and cb: "channel_block F (takeWhile (\<lambda>c. c \<noteq> LT \<and> c \<noteq> GT) rest) = Inr (channel_data f, Some part)"
    and f: "f = \<lparr>serial = pre, channel_data = channel_data f,
          checksum = last (str_split GT (pre @ LT # rest)),
          raw_packet = pre @ LT # rest, is_end_marker = (str_strip part = [])\<rparr>"
    by (rule parse_packet_InrE)
  have part: "part = str_strip (str_replace (lit ''sendVal'') [] (takeWhile (\<lambda>c. c \<noteq> LT \<and> c \<noteq> GT) rest))"
    using channel_block_bound [OF cb] by simp
  have "is_end_marker f = (str_strip part = [])"
    by (subst f) simp
  then have em: "is_end_marker f = (part = [])"
    by (simp add: part str_strip_idem)
  have "channel_data f = []" if "is_end_marker f"
  proof -
    from that em have "part = []" by simp
    with cb show ?thesis by (simp add: channel_block_empty_part)
  qed
  moreover have "is_end_marker f =
      (str_strip (str_replace (lit ''sendVal'') []
         (takeWhile (\<lambda>c. c \<noteq> LT \<and> c \<noteq> GT) rest)) = [])"
    using em part by simp
  ultimately show ?thesis using d by blast
qed

theorem end_marker_carries_no_channels_witness:
  "parse_packet decimal_float ''A<sendVal >K'' =
     Inr \<lparr>serial = lit ''A'', channel_data = [], checksum = lit ''K'',
          raw_packet = lit ''A<sendVal >K'', is_end_marker = True\<rparr>
   \<and> channel_data \<lparr>serial = lit ''A'', channel_data = [] :: rat channel_dict, checksum = lit ''K'',
          raw_packet = lit ''A<sendVal >K'', is_end_marker = True\<rparr> = []"
proof -
  have p: "parse_packet decimal_float ''A<sendVal >K'' =
     Inr \<lparr>serial = lit ''A'', channel_data = [], checksum = lit ''K'',
          raw_packet = lit ''A<sendVal >K'', is_end_marker = True\<rparr>"
    by (simp add: run_defs)
  note inst = end_marker_carries_no_channels [OF p, THEN conjunct1]
  have "channel_data \<lparr>serial = lit ''A'', channel_data = [] :: rat channel_dict, checksum = lit ''K'',
          raw_packet = lit ''A<sendVal >K'', is_end_marker = True\<rparr> = []"
    using inst by simp
  with p show ?thesis by (rule conjI)
qed

lemma channel_block_float:
  "map_sum id snd (channel_block F c) = map_sum id snd (channel_block G c)"
proof (cases "str_contains (lit ''sendVal'') c")
  case False
  then show ?thesis by (simp add: channel_block_unmarked)
next
  case True
  let ?part = "str_strip (str_replace (lit ''sendVal'') [] c)"
  show ?thesis
  proof (cases "?part = []")
    case True
    with \<open>str_contains (lit ''sendVal'') c\<close> show ?thesis by (simp add: channel_block_marked)
  next
    case False
    have "isl (parse_channels F [] (str_split SEMI ?part)) = isl (parse_channels G [] (str_split SEMI ?part))"
      by (rule parse_channels_success_float)
    then show ?thesis using True False
      by (cases "parse_channels F [] (str_split SEMI ?part)";
          cases "parse_channels G [] (str_split SEMI ?part)")
        (auto simp: channel_block_marked dest: parse_channels_error)
  qed
qed

lemma parse_packet_float: "isl (parse_packet F b) = isl (parse_packet G b)"
proof (cases "utf8_decode b")
  case None
  then show ?thesis by (simp add: parse_packet_undecodable)
next
  case (Some s)
  show ?thesis
  proof (cases "LT \<in> set s")
    case False
    then show ?thesis using Some by (simp add: parse_packet_no_lt)
  next
    case True
    then obtain pre rest where s: "s = pre @ LT # rest" "LT \<notin> set pre"
      by (auto dest: split_list_first)
    note eqF = parse_packet_lt [OF Some [unfolded s(1)] s(2), of F]
    note eqG = parse_packet_lt [OF Some [unfolded s(1)] s(2), of G]
    let ?c = "takeWhile (\<lambda>c. c \<noteq> LT \<and> c \<noteq> GT) rest"
    from channel_block_float [of F ?c G] show ?thesis
      unfolding eqF eqG
      by (cases "channel_block F ?c"; cases "channel_block G ?c")
        (auto split: option.splits)
  qed
qed

lemma split_two_has_sep:
  assumes "str_split sep s = [k, v]"
  shows "sep \<in> set s"
proof (rule ccontr)
  assume "sep \<notin> set s"
  then have "str_split sep s = [s]" by (rule str_split_no_sep)
  with assms show False by simp
qed

lemma takeWhile_stop:
  "GT \<notin> set mid \<Longrightarrow>
   takeWhile (\<lambda>c. c \<noteq> LT \<and> c \<noteq> GT) (mid @ GT # after) = takeWhile (\<lambda>c. c \<noteq> LT) mid"
  by (induction mid) auto

text \<open>
  C2 as stated fails: bracketed content without \<open>sendVal\<close> is not parsed, and decoding does
  not return a fragment. The loop over the channel assignments is under
  \<open>if 'sendVal' in content\<close>; the return statement then reads \<open>channels_part\<close>, which that
  branch alone assigns, and the \<open>UnboundLocalError\<close> is caught as every exception is.
\<close>

theorem unmarked_content_counterexample:
  "\<not> str_contains (lit ''sendVal'') (lit ''0=1'')
   \<and> parse_packet decimal_float ''A<0=1>K'' = Inl UnboundLocalError"
  by (simp add: run_defs)

text \<open>
  C2, amended. Bracketed content without \<open>sendVal\<close> is never treated as a channel-assignment
  body: lines 69 to 83 leave \<open>channel_data\<close> empty whatever the content holds, so no fragment
  with channel data comes from such a payload. (Whether a fragment without channels or a
  failure comes out is not part of this statement.)
\<close>

theorem unmarked_content_not_parsed:
  assumes "utf8_decode b = Some (pre @ LT # rest)" and "LT \<notin> set pre"
    and "\<not> str_contains (lit ''sendVal'') (takeWhile (\<lambda>c. c \<noteq> LT \<and> c \<noteq> GT) rest)"
  shows "(\<exists>part. channel_block F (takeWhile (\<lambda>c. c \<noteq> LT \<and> c \<noteq> GT) rest) = Inr ([], part))
     \<and> (\<forall>f. parse_packet F b = Inr f \<longrightarrow> channel_data f = [])"
proof -
  obtain part where cb: "channel_block F (takeWhile (\<lambda>c. c \<noteq> LT \<and> c \<noteq> GT) rest) = Inr ([], part)"
    using assms(3) by (auto simp: channel_block_def)
  have "channel_data f = []" if "parse_packet F b = Inr f" for f
    using that unfolding parse_packet_lt [OF assms(1,2)] cb
    by (cases part) auto
  with cb show ?thesis by blast
qed

theorem unmarked_content_not_parsed_witness:
  "utf8_decode ''A<0=1>K'' = Some (lit ''A'' @ LT # lit ''0=1>K'')
   \<and> LT \<notin> set (lit ''A'')
   \<and> \<not> str_contains (lit ''sendVal'') (takeWhile (\<lambda>c. c \<noteq> LT \<and> c \<noteq> GT) (lit ''0=1>K''))
   \<and> (\<exists>part. channel_block decimal_float (takeWhile (\<lambda>c. c \<noteq> LT \<and> c \<noteq> GT) (lit ''0=1>K''))
         = Inr ([], part))"
proof -
  have h: "utf8_decode ''A<0=1>K'' = Some (lit ''A'' @ LT # lit ''0=1>K'')"
    "LT \<notin> set (lit ''A'')"
    "\<not> str_contains (lit ''sendVal'') (takeWhile (\<lambda>c. c \<noteq> LT \<and> c \<noteq> GT) (lit ''0=1>K''))"
    by (simp_all add: utf8_decode_def lit_def startswith_def)
  from unmarked_content_not_parsed [OF h, of decimal_float] h show ?thesis
    by blast
qed

text \<open>
  What the loop does with a token that has exactly one \<open>=\<close> (the trimmed token splits into
  a channel number and a value text): the value text \<open>NaN\<close>, trimmed, stores an absent value;
  any other value text that \<open>float\<close> rejects leaves the channel data as it was, and the loop
  goes on; a value \<open>float\<close> accepts is stored. Whether decoding a payload succeeds does not
  depend on which value texts \<open>float\<close> accepts.
\<close>

theorem channel_value_parse:
  "(str_split EQ (str_strip channel) = [channel_num, value_text] \<longrightarrow>
      parse_channel F cd channel =
        Inr (if str_strip value_text = lit ''NaN'' then AList.update channel_num None cd
             else (case F value_text of
                     None \<Rightarrow> cd
                   | Some x \<Rightarrow> AList.update channel_num (Some x) cd)))
   \<and> isl (parse_packet F b) = isl (parse_packet G b)"
proof (intro conjI impI)
  assume sp: "str_split EQ (str_strip channel) = [channel_num, value_text]"
  then have "EQ \<in> set (str_strip channel)" by (rule split_two_has_sep)
  then have "str_contains [EQ] channel"
    using set_str_strip [of channel] by (auto simp: str_contains_char)
  then show "parse_channel F cd channel =
        Inr (if str_strip value_text = lit ''NaN'' then AList.update channel_num None cd
             else (case F value_text of
                     None \<Rightarrow> cd
                   | Some x \<Rightarrow> AList.update channel_num (Some x) cd))"
    using sp by (simp add: parse_channel_def split: option.splits)
next
  show "isl (parse_packet F b) = isl (parse_packet G b)"
    by (rule parse_packet_float)
qed

theorem channel_value_parse_witness:
  "str_split EQ (str_strip (lit ''0=abc'')) = [lit ''0'', lit ''abc'']
   \<and> str_strip (lit ''abc'') \<noteq> lit ''NaN'' \<and> decimal_float (lit ''abc'') = None
   \<and> parse_channel decimal_float [(lit ''1'', None)] (lit ''0=abc'') = Inr [(lit ''1'', None)]
   \<and> parse_packet decimal_float ''A<sendVal 1=NaN;0=abc;2= NaN >K'' =
       Inr \<lparr>serial = lit ''A'', channel_data = [(lit ''1'', None), (lit ''2'', None)],
            checksum = lit ''K'', raw_packet = lit ''A<sendVal 1=NaN;0=abc;2= NaN >K'',
            is_end_marker = False\<rparr>
   \<and> isl (parse_packet decimal_float ''A<sendVal 1=NaN;0=abc;2= NaN >K'')
       = isl (parse_packet (\<lambda>v. Some (0 :: nat)) ''A<sendVal 1=NaN;0=abc;2= NaN >K'')"
proof -
  have h: "str_split EQ (str_strip (lit ''0=abc'')) = [lit ''0'', lit ''abc'']"
    "str_strip (lit ''abc'') \<noteq> lit ''NaN''" "decimal_float (lit ''abc'') = None"
    by (simp_all add: run_defs)
  note inst = channel_value_parse [where channel = "lit ''0=abc''" and channel_num = "lit ''0''"
      and value_text = "lit ''abc''" and F = decimal_float and cd = "[(lit ''1'', None)]"
      and G = "\<lambda>v. Some (0 :: nat)" and b = "''A<sendVal 1=NaN;0=abc;2= NaN >K''"]
  have c: "parse_channel decimal_float [(lit ''1'', None)] (lit ''0=abc'') = Inr [(lit ''1'', None)]"
    using inst h by simp
  have p: "parse_packet decimal_float ''A<sendVal 1=NaN;0=abc;2= NaN >K'' =
       Inr \<lparr>serial = lit ''A'', channel_data = [(lit ''1'', None), (lit ''2'', None)],
            checksum = lit ''K'', raw_packet = lit ''A<sendVal 1=NaN;0=abc;2= NaN >K'',
            is_end_marker = False\<rparr>"
    by (simp add: run_defs)
  from inst have i: "isl (parse_packet decimal_float ''A<sendVal 1=NaN;0=abc;2= NaN >K'')
       = isl (parse_packet (\<lambda>v. Some (0 :: nat)) ''A<sendVal 1=NaN;0=abc;2= NaN >K'')"
    by (rule conjunct2)
  from h c p i show ?thesis by (intro conjI)
qed

lemma two_equals_token_fails:
  assumes "str_contains [EQ] channel" and "length (str_split EQ (str_strip channel)) \<noteq> 2"
  shows "parse_channel F cd channel = Inl ValueError"
proof -
  obtain p ps where sp: "str_split EQ (str_strip channel) = p # ps"
    using str_split_nonempty [of EQ "str_strip channel"]
    by (cases "str_split EQ (str_strip channel)") auto
  show ?thesis
  proof (cases ps)
    case Nil
    with sp assms(1) show ?thesis by (simp add: parse_channel_def)
  next
    case (Cons q qs)
    with sp assms(2) have "qs \<noteq> []" by auto
    then obtain r rs where "qs = r # rs" by (cases qs) auto
    with sp Cons assms(1) show ?thesis by (simp add: parse_channel_def)
  qed
qed


text \<open>
  C4. The source breaks the claim at a token with more than one \<open>=\<close>. For the spec the value
  text is what follows the first \<open>=\<close>, so the token \<open>0=1=2\<close> has the value text \<open>1=2\<close>, which
  is no number, and only that channel should be left out. In the source the two-name
  unpacking of \<open>split('=')\<close> at line 75 stands one line above the inner \<open>try\<close> that catches
  the \<open>ValueError\<close> of \<open>float\<close>: its own \<open>ValueError\<close> is caught only at line 93, and the whole
  packet is dropped, whatever \<open>float\<close> is.
\<close>

theorem two_equals_fails_decode:
  "parse_packet F ''A<sendVal 0=1=2>K'' = Inl ValueError"
  by (simp add: run_defs)

text \<open>
  C9 as stated fails when a second \<open><\<close> comes before the first \<open>></\<close>: \<open>split('<')[1]\<close> ends
  at that \<open><\<close>, so the bracketed content is shorter than the text before the first \<open>></\<close>.
  Below, the text between the first \<open><\<close> and the first \<open>></\<close> would give two channels; the
  decoded fragment has one.
\<close>

theorem second_lt_counterexample:
  "parse_packet decimal_float ''A<sendVal 0=NaN;<1=NaN>x>K'' =
     Inr \<lparr>serial = lit ''A'', channel_data = [(lit ''0'', None)], checksum = lit ''K'',
          raw_packet = lit ''A<sendVal 0=NaN;<1=NaN>x>K'', is_end_marker = False\<rparr>
   \<and> channel_block decimal_float (lit ''sendVal 0=NaN;<1=NaN'') =
       Inr ([(lit ''0'', None), (lit ''<1'', None)], Some (lit ''0=NaN;<1=NaN''))"
  by (simp add: run_defs)

text \<open>
  C9, amended. For a payload with more than one \<open>></\<close> after the first \<open><\<close>, the bracketed
  content is the text after the first \<open><\<close> up to the first \<open>></\<close> or the next \<open><\<close>, whichever
  comes first (the text before the first \<open>></\<close> when no \<open><\<close> lies in it), and the checksum is
  the text after the last \<open>></\<close>. The text between the first and the last \<open>></\<close> reaches neither
  the channel data nor the checksum; it is in \<open>raw_packet\<close> only.
\<close>

theorem text_between_gt_discarded:
  assumes "utf8_decode b = Some (pre @ LT # mid @ GT # between @ GT # tail)"
    and "LT \<notin> set pre" and "GT \<notin> set mid" and "GT \<notin> set tail"
  shows "parse_packet F b =
    (case channel_block F (takeWhile (\<lambda>c. c \<noteq> LT) mid) of
       Inl e \<Rightarrow> Inl e
     | Inr (cd, None) \<Rightarrow> Inl UnboundLocalError
     | Inr (cd, Some part) \<Rightarrow>
         Inr \<lparr>serial = pre, channel_data = cd, checksum = tail,
              raw_packet = pre @ LT # mid @ GT # between @ GT # tail,
              is_end_marker = (str_strip part = [])\<rparr>)"
proof -
  have "last (str_split GT ((pre @ LT # mid @ GT # between) @ GT # tail)) = tail"
    using assms(4) by (simp only: str_split_last) (simp add: str_split_no_sep)
  then have l: "last (str_split GT (pre @ LT # mid @ GT # between @ GT # tail)) = tail"
    by simp
  show ?thesis
    unfolding parse_packet_lt [OF assms(1,2)] takeWhile_stop [OF assms(3)] l ..
qed

theorem text_between_gt_discarded_witness:
  "utf8_decode ''A<sendVal 0=NaN>1=NaN>K'' =
     Some (lit ''A'' @ LT # lit ''sendVal 0=NaN'' @ GT # lit ''1=NaN'' @ GT # lit ''K'')
   \<and> LT \<notin> set (lit ''A'') \<and> GT \<notin> set (lit ''sendVal 0=NaN'') \<and> GT \<notin> set (lit ''K'')
   \<and> parse_packet decimal_float ''A<sendVal 0=NaN>1=NaN>K'' =
       Inr \<lparr>serial = lit ''A'', channel_data = [(lit ''0'', None)], checksum = lit ''K'',
            raw_packet = lit ''A<sendVal 0=NaN>1=NaN>K'', is_end_marker = False\<rparr>"
proof -
  have h: "utf8_decode ''A<sendVal 0=NaN>1=NaN>K'' =
     Some (lit ''A'' @ LT # lit ''sendVal 0=NaN'' @ GT # lit ''1=NaN'' @ GT # lit ''K'')"
    "LT \<notin> set (lit ''A'')" "GT \<notin> set (lit ''sendVal 0=NaN'')" "GT \<notin> set (lit ''K'')"
    by (simp_all add: utf8_decode_def lit_def)
  have cb: "channel_block decimal_float (takeWhile (\<lambda>c. c \<noteq> LT) (lit ''sendVal 0=NaN'')) =
      Inr ([(lit ''0'', None)], Some (lit ''0=NaN''))"
    by (simp add: run_defs)
  have "parse_packet decimal_float ''A<sendVal 0=NaN>1=NaN>K'' =
       Inr \<lparr>serial = lit ''A'', channel_data = [(lit ''0'', None)], checksum = lit ''K'',
            raw_packet = lit ''A<sendVal 0=NaN>1=NaN>K'', is_end_marker = False\<rparr>"
    unfolding text_between_gt_discarded [OF h, of decimal_float] cb
    by (simp add: lit_def str_strip_def isspace_def)
  with h show ?thesis by (intro conjI)
qed

lemma utf8_decode_ascii_prefix:
  "\<forall>c\<in>set p. (of_char c :: nat) < 128 \<Longrightarrow>
   utf8_decode (p @ q) = map_option ((@) (map of_char p)) (utf8_decode q)"
proof (induction p)
  case Nil
  then show ?case by (simp add: utf8_decode_def option.map_ident)
next
  case (Cons c p)
  then have "utf8_decode (p @ q) = map_option ((@) (map of_char p)) (utf8_decode q)" by simp
  then show ?case using Cons.prems
    by (cases "utf8_decode q") (simp_all add: utf8_decode_def)
qed

lemma utf8_decode_serial:
  assumes "\<forall>c\<in>set p. (of_char c :: nat) < 128 \<and> c \<noteq> CHR ''<''"
  shows "utf8_decode (p @ CHR ''<'' # d) = map_option (\<lambda>rest. map of_char p @ LT # rest) (utf8_decode d)"
    and "LT \<notin> set (map of_char p :: nat list)"
proof -
  have a: "\<forall>c\<in>set (p @ [CHR ''<'']). (of_char c :: nat) < 128" using assms by simp
  have "utf8_decode ((p @ [CHR ''<'']) @ d) =
      map_option ((@) (map of_char (p @ [CHR ''<'']))) (utf8_decode d)"
    using a by (rule utf8_decode_ascii_prefix)
  then show "utf8_decode (p @ CHR ''<'' # d) =
      map_option (\<lambda>rest. map of_char p @ LT # rest) (utf8_decode d)"
    by (cases "utf8_decode d") simp_all
  show "LT \<notin> set (map of_char p :: nat list)"
  proof
    assume "LT \<in> set (map of_char p :: nat list)"
    then obtain c where c: "c \<in> set p" "(of_char c :: nat) = LT" by auto
    have "(of_char c :: nat) = of_char CHR ''<''" using c(2) by simp
    then have "c = CHR ''<''" by (simp only: of_char_eq_iff)
    with assms c(1) show False by blast
  qed
qed

lemma parse_packet_serial:
  assumes "\<forall>c\<in>set p. (of_char c :: nat) < 128 \<and> c \<noteq> CHR ''<''"
  shows "parse_packet F (p @ CHR ''<'' # d) =
    (case utf8_decode d of
       None \<Rightarrow> Inl UnicodeDecodeError
     | Some rest \<Rightarrow>
        (case channel_block F (takeWhile (\<lambda>c. c \<noteq> LT \<and> c \<noteq> GT) rest) of
           Inl e \<Rightarrow> Inl e
         | Inr (cd, None) \<Rightarrow> Inl UnboundLocalError
         | Inr (cd, Some part) \<Rightarrow>
             Inr \<lparr>serial = map of_char p, channel_data = cd,
                  checksum = last (str_split GT (map of_char p @ LT # rest)),
                  raw_packet = map of_char p @ LT # rest,
                  is_end_marker = (str_strip part = [])\<rparr>))"
proof (cases "utf8_decode d")
  case None
  then show ?thesis
    using utf8_decode_serial(1) [OF assms, of d] by (simp add: parse_packet_undecodable)
next
  case (Some rest)
  then have "utf8_decode (p @ CHR ''<'' # d) = Some (map of_char p @ LT # rest)"
    using utf8_decode_serial(1) [OF assms, of d] by simp
  from parse_packet_lt [OF this utf8_decode_serial(2) [OF assms], of F] Some
  show ?thesis by simp
qed

lemma parse_packet_serial_same:
  assumes "\<forall>c\<in>set p. (of_char c :: nat) < 128 \<and> c \<noteq> CHR ''<''"
  shows "map_sum id (\<lambda>f. (channel_data f, is_end_marker f)) (parse_packet F (CHR ''<'' # d)) =
         map_sum id (\<lambda>f. (channel_data f, is_end_marker f)) (parse_packet F (p @ CHR ''<'' # d))"
proof -
  have e: "\<forall>c\<in>set ([] :: char list). (of_char c :: nat) < 128 \<and> c \<noteq> CHR ''<''" by simp
  show ?thesis
    unfolding parse_packet_serial [OF assms] parse_packet_serial [OF e, simplified]
    by (auto split: option.splits sum.splits)
qed

lemma empty_serial_run:
  assumes "map (parse_packet F) (map ((#) CHR ''<'') ds) = map Inr fs"
    and "fs \<noteq> []" and "\<forall>f\<in>set fs. \<not> is_end_marker f"
    and "parse_packet F (CHR ''<'' # d) = Inr t" and "is_end_marker t"
    and "\<not> dict_contains [] (packet_buffer st)"
  shows "(\<forall>f\<in>set fs. serial f = []) \<and> serial t = []
     \<and> sensor_readings (start F st (map ((#) CHR ''<'') ds @ [CHR ''<'' # d])) =
         sensor_readings st @
           [\<lparr>serial_number = [], row_channel_data = foldl dict_update [] (map channel_data fs),
             raw_packets = map raw_packet fs\<rparr>]
     \<and> \<not> dict_contains [] (packet_buffer (start F st (map ((#) CHR ''<'') ds @ [CHR ''<'' # d])))"
proof -
  have empty: "serial f = []" if "parse_packet F (CHR ''<'' # x) = Inr f" for x f
  proof -
    from that obtain pre rest part where d: "utf8_decode (CHR ''<'' # x) = Some (pre @ LT # rest)"
      "LT \<notin> set pre"
      and f: "f = \<lparr>serial = pre, channel_data = channel_data f,
          checksum = last (str_split GT (pre @ LT # rest)),
          raw_packet = pre @ LT # rest, is_end_marker = (str_strip part = [])\<rparr>"
      by (rule parse_packet_InrE)
    from utf8_decode_lt [OF d(1)] d(2) have "pre = []" by (cases pre) auto
    then show ?thesis by (subst f) simp
  qed
  have all: "\<forall>f\<in>set fs. serial f = []"
  proof
    fix f assume "f \<in> set fs"
    then obtain i where i: "i < length fs" "fs ! i = f" by (auto simp: in_set_conv_nth)
    have len: "length ds = length fs" using assms(1) by (metis length_map)
    have "map (parse_packet F) (map ((#) CHR ''<'') ds) ! i = map Inr fs ! i"
      using assms(1) by simp
    then have "parse_packet F (CHR ''<'' # ds ! i) = Inr f"
      using i len by simp
    then show "serial f = []" by (rule empty)
  qed
  have t: "serial t = []" using assms(4) by (rule empty)
  have own: "\<forall>f\<in>set fs. serial f = [] \<and> \<not> is_end_marker f"
    using all assms(3) by simp
  have run: "start F st (map ((#) CHR ''<'') ds @ [CHR ''<'' # d]) = ingest (foldl ingest st fs) t"
    using start_decoded [OF assms(1), of st] assms(4)
    by (simp add: start_append) (simp add: start_def handle_datagram_def)
  from complete_transmission [OF own assms(2) t assms(5,6)] all t show ?thesis
    unfolding run by simp
qed

text \<open>
  C10 as stated fails: a payload that begins with \<open><\<close> is not always decoded. Bytes after the
  \<open><\<close> that are not UTF-8 fail, as they do behind any serial.
\<close>

theorem leading_lt_counterexample:
  "parse_packet decimal_float [CHR ''<'', CHR 0xFF] = Inl UnicodeDecodeError"
  by (simp add: run_defs)

text \<open>
  C10, amended. A payload that begins with \<open><\<close> is decoded as the same bytes are behind a
  serial: the serial read is the empty string, the bytes after the \<open><\<close> alone decide the
  outcome, and decoding succeeds exactly when it succeeds with any serial of ASCII characters
  other than \<open><\<close> put in front, with the same channel data and end marker (or the same
  exception). The loop accumulates and completes a transmission under the empty serial as
  under any other: datagrams that decode to non-terminator fragments, followed by one that
  decodes to a terminator, give one row with the empty serial, the merged channel data and the
  raw texts in arrival order, and the entry is removed.
\<close>

theorem empty_serial_device:
  "parse_packet F (CHR ''<'' # d) =
     (case utf8_decode d of
        None \<Rightarrow> Inl UnicodeDecodeError
      | Some rest \<Rightarrow>
         (case channel_block F (takeWhile (\<lambda>c. c \<noteq> LT \<and> c \<noteq> GT) rest) of
            Inl x \<Rightarrow> Inl x
          | Inr (cd, None) \<Rightarrow> Inl UnboundLocalError
          | Inr (cd, Some part) \<Rightarrow>
              Inr \<lparr>serial = [], channel_data = cd, checksum = last (str_split GT (LT # rest)),
                   raw_packet = LT # rest, is_end_marker = (str_strip part = [])\<rparr>))
   \<and> ((\<forall>c\<in>set p. (of_char c :: nat) < 128 \<and> c \<noteq> CHR ''<'') \<longrightarrow>
         isl (parse_packet F (CHR ''<'' # d)) = isl (parse_packet F (p @ CHR ''<'' # d))
         \<and> map_sum id (\<lambda>f. (channel_data f, is_end_marker f)) (parse_packet F (CHR ''<'' # d)) =
           map_sum id (\<lambda>f. (channel_data f, is_end_marker f)) (parse_packet F (p @ CHR ''<'' # d)))
   \<and> (map (parse_packet F) (map ((#) CHR ''<'') ds) = map Inr fs \<and> fs \<noteq> []
        \<and> (\<forall>f\<in>set fs. \<not> is_end_marker f)
        \<and> parse_packet F (CHR ''<'' # td) = Inr t \<and> is_end_marker t
        \<and> \<not> dict_contains [] (packet_buffer st) \<longrightarrow>
         (\<forall>f\<in>set fs. serial f = []) \<and> serial t = []
         \<and> sensor_readings (start F st (map ((#) CHR ''<'') ds @ [CHR ''<'' # td])) =
             sensor_readings st @
               [\<lparr>serial_number = [], row_channel_data = foldl dict_update [] (map channel_data fs),
                 raw_packets = map raw_packet fs\<rparr>]
         \<and> \<not> dict_contains []
               (packet_buffer (start F st (map ((#) CHR ''<'') ds @ [CHR ''<'' # td]))))"
proof (intro conjI impI)
  have e: "\<forall>c\<in>set ([] :: char list). (of_char c :: nat) < 128 \<and> c \<noteq> CHR ''<''" by simp
  have "parse_packet F ([] @ CHR ''<'' # d) =
     (case utf8_decode d of
        None \<Rightarrow> Inl UnicodeDecodeError
      | Some rest \<Rightarrow>
         (case channel_block F (takeWhile (\<lambda>c. c \<noteq> LT \<and> c \<noteq> GT) rest) of
            Inl x \<Rightarrow> Inl x
          | Inr (cd, None) \<Rightarrow> Inl UnboundLocalError
          | Inr (cd, Some part) \<Rightarrow>
              Inr \<lparr>serial = map of_char [], channel_data = cd,
                   checksum = last (str_split GT (map of_char [] @ LT # rest)),
                   raw_packet = map of_char [] @ LT # rest,
                   is_end_marker = (str_strip part = [])\<rparr>))"
    using e by (rule parse_packet_serial)
  then show "parse_packet F (CHR ''<'' # d) =
     (case utf8_decode d of
        None \<Rightarrow> Inl UnicodeDecodeError
      | Some rest \<Rightarrow>
         (case channel_block F (takeWhile (\<lambda>c. c \<noteq> LT \<and> c \<noteq> GT) rest) of
            Inl x \<Rightarrow> Inl x
          | Inr (cd, None) \<Rightarrow> Inl UnboundLocalError
          | Inr (cd, Some part) \<Rightarrow>
              Inr \<lparr>serial = [], channel_data = cd, checksum = last (str_split GT (LT # rest)),
                   raw_packet = LT # rest, is_end_marker = (str_strip part = [])\<rparr>))"
    by (simp only: list.map append_Nil)
next
  assume p: "\<forall>c\<in>set p. (of_char c :: nat) < 128 \<and> c \<noteq> CHR ''<''"
  then show same: "map_sum id (\<lambda>f. (channel_data f, is_end_marker f)) (parse_packet F (CHR ''<'' # d)) =
      map_sum id (\<lambda>f. (channel_data f, is_end_marker f)) (parse_packet F (p @ CHR ''<'' # d))"
    by (rule parse_packet_serial_same)
  then show "isl (parse_packet F (CHR ''<'' # d)) = isl (parse_packet F (p @ CHR ''<'' # d))"
    by (cases "parse_packet F (CHR ''<'' # d)"; cases "parse_packet F (p @ CHR ''<'' # d)") simp_all
next
  assume h: "map (parse_packet F) (map ((#) CHR ''<'') ds) = map Inr fs \<and> fs \<noteq> []
        \<and> (\<forall>f\<in>set fs. \<not> is_end_marker f)
        \<and> parse_packet F (CHR ''<'' # td) = Inr t \<and> is_end_marker t
        \<and> \<not> dict_contains [] (packet_buffer st)"
  then have r: "(\<forall>f\<in>set fs. serial f = []) \<and> serial t = []
         \<and> sensor_readings (start F st (map ((#) CHR ''<'') ds @ [CHR ''<'' # td])) =
             sensor_readings st @
               [\<lparr>serial_number = [], row_channel_data = foldl dict_update [] (map channel_data fs),
                 raw_packets = map raw_packet fs\<rparr>]
         \<and> \<not> dict_contains []
               (packet_buffer (start F st (map ((#) CHR ''<'') ds @ [CHR ''<'' # td])))"
    by (intro empty_serial_run) simp_all
  from r show "\<forall>f\<in>set fs. serial f = []" by simp
  from r show "serial t = []" by simp
  from r show "sensor_readings (start F st (map ((#) CHR ''<'') ds @ [CHR ''<'' # td])) =
             sensor_readings st @
               [\<lparr>serial_number = [], row_channel_data = foldl dict_update [] (map channel_data fs),
                 raw_packets = map raw_packet fs\<rparr>]" by simp
  from r show "\<not> dict_contains []
               (packet_buffer (start F st (map ((#) CHR ''<'') ds @ [CHR ''<'' # td])))" by simp
qed

theorem empty_serial_device_witness:
  "parse_packet decimal_float ''<sendVal 0=NaN>K'' =
     Inr \<lparr>serial = [], channel_data = [(lit ''0'', None)], checksum = lit ''K'',
          raw_packet = lit ''<sendVal 0=NaN>K'', is_end_marker = False\<rparr>
   \<and> list_all (\<lambda>c. (of_char c :: nat) < 128 \<and> c \<noteq> CHR ''<'') ''DEV1''
   \<and> isl (parse_packet decimal_float ''<sendVal 0=NaN>K'') =
       isl (parse_packet decimal_float ''DEV1<sendVal 0=NaN>K'')
   \<and> parse_packet decimal_float ''DEV1<sendVal 0=NaN>K'' =
     Inr \<lparr>serial = lit ''DEV1'', channel_data = [(lit ''0'', None)], checksum = lit ''K'',
          raw_packet = lit ''DEV1<sendVal 0=NaN>K'', is_end_marker = False\<rparr>
   \<and> parse_packet decimal_float ''<sendVal>K'' =
     Inr \<lparr>serial = [], channel_data = [], checksum = lit ''K'',
          raw_packet = lit ''<sendVal>K'', is_end_marker = True\<rparr>
   \<and> \<not> dict_contains []
         (packet_buffer (\<lparr>packet_buffer = [], sensor_readings = []\<rparr> :: rat server))
   \<and> sensor_readings (start decimal_float \<lparr>packet_buffer = [], sensor_readings = []\<rparr>
          [''<sendVal 0=NaN>K'', ''<sendVal>K'']) =
       [\<lparr>serial_number = [], row_channel_data = [(lit ''0'', None)],
         raw_packets = [lit ''<sendVal 0=NaN>K'']\<rparr>]
   \<and> \<not> dict_contains [] (packet_buffer
          (start decimal_float \<lparr>packet_buffer = [], sensor_readings = []\<rparr>
             [''<sendVal 0=NaN>K'', ''<sendVal>K'']))"
proof -
  let ?f = "\<lparr>serial = [], channel_data = [(lit ''0'', None :: rat option)], checksum = lit ''K'',
          raw_packet = lit ''<sendVal 0=NaN>K'', is_end_marker = False\<rparr>"
  let ?t = "\<lparr>serial = [], channel_data = [] :: rat channel_dict, checksum = lit ''K'',
          raw_packet = lit ''<sendVal>K'', is_end_marker = True\<rparr>"
  let ?st = "\<lparr>packet_buffer = [], sensor_readings = []\<rparr> :: rat server"
  have pf: "parse_packet decimal_float ''<sendVal 0=NaN>K'' = Inr ?f"
    and pt: "parse_packet decimal_float ''<sendVal>K'' = Inr ?t"
    and pd: "parse_packet decimal_float ''DEV1<sendVal 0=NaN>K'' =
     Inr \<lparr>serial = lit ''DEV1'', channel_data = [(lit ''0'', None)], checksum = lit ''K'',
          raw_packet = lit ''DEV1<sendVal 0=NaN>K'', is_end_marker = False\<rparr>"
    by (simp_all add: run_defs)
  have a: "list_all (\<lambda>c. (of_char c :: nat) < 128 \<and> c \<noteq> CHR ''<'') ''DEV1''"
    by simp
  then have a': "\<forall>c\<in>set ''DEV1''. (of_char c :: nat) < 128 \<and> c \<noteq> CHR ''<''"
    by (simp only: list_all_iff)
  note inst = empty_serial_device [where F = decimal_float and d = "''sendVal 0=NaN>K''"
      and p = "''DEV1''" and ds = "[''sendVal 0=NaN>K'']" and fs = "[?f]" and td = "''sendVal>K''"
      and t = ?t and st = ?st]
  have i: "isl (parse_packet decimal_float ''<sendVal 0=NaN>K'') =
       isl (parse_packet decimal_float ''DEV1<sendVal 0=NaN>K'')"
    using inst [THEN conjunct2, THEN conjunct1, THEN mp, OF a', THEN conjunct1] by simp
  have h: "map (parse_packet decimal_float) (map ((#) CHR ''<'') [''sendVal 0=NaN>K'']) = map Inr [?f]
        \<and> [?f] \<noteq> [] \<and> (\<forall>f\<in>set [?f]. \<not> is_end_marker f)
        \<and> parse_packet decimal_float (CHR ''<'' # ''sendVal>K'') = Inr ?t \<and> is_end_marker ?t
        \<and> \<not> dict_contains [] (packet_buffer ?st)"
    using pf pt by (simp add: dict_contains_def)
  note run = inst [THEN conjunct2, THEN conjunct2, THEN mp, OF h]
  have h6: "\<not> dict_contains [] (packet_buffer ?st)" by (simp add: dict_contains_def)
  have r: "sensor_readings (start decimal_float ?st [''<sendVal 0=NaN>K'', ''<sendVal>K'']) =
       [\<lparr>serial_number = [], row_channel_data = [(lit ''0'', None)],
         raw_packets = [lit ''<sendVal 0=NaN>K'']\<rparr>]"
    using run by (simp add: dict_update_def)
  have c: "\<not> dict_contains [] (packet_buffer
          (start decimal_float ?st [''<sendVal 0=NaN>K'', ''<sendVal>K'']))"
    using run by simp
  from pf a i pd pt h6 r c show ?thesis by (intro conjI)
qed

end
